theory Spec2Isabelle
  imports Main "HOL-Library.Word"
begin

unbundle bit_operations_syntax

section \<open>A Minecraft Server List Ping client: pkg/pinging/ping.go\<close>

text \<open>
  The package sends a handshake packet and a status request over a TCP connection and
  decodes the one status response. This theory embeds its functions: \<open>encodeVarint\<close>,
  \<open>makePacket\<close>, \<open>sendHandShake\<close>, \<open>sendStatusRequest\<close>, \<open>readPong\<close> and
  \<open>Ping\<close>, together with the functions of Go's standard library that they call
  (\<open>binary.Uvarint\<close>, \<open>binary.ReadUvarint\<close>, \<open>io.ReadFull\<close>, \<open>net.SplitHostPort\<close>,
  \<open>strconv.Atoi\<close>, \<open>binary.Write\<close>), written after the library's sources.
  \<open>json.Unmarshal\<close> and \<open>net.DialTimeout\<close> are parameters of the model.
\<close>

subsection \<open>Values, errors and results\<close>

type_synonym byte = "8 word"

text \<open>Go's \<open>uint64\<close> is \<open>64 word\<close>; Go's \<open>int\<close> (64 bits) is \<open>64 word\<close> read with \<open>sint\<close>.\<close>

type_synonym uint64 = "64 word"
type_synonym go_int = "64 word"

text \<open>
  The error values that occur: \<open>errors.New\<close> gives an \<open>errorString\<close>;
  \<open>net.SplitHostPort\<close> an \<open>AddrError\<close> (reason, address); \<open>strconv.Atoi\<close> a
  \<open>NumError\<close> (function, input, cause); the readers \<open>EOF\<close>, \<open>ErrUnexpectedEOF\<close>
  and the varint overflow error; a failed write \<open>ErrShortWrite\<close> or an \<open>OpError\<close>;
  \<open>json.Unmarshal\<close> a \<open>SyntaxError\<close>; a runtime panic a \<open>runtimeError\<close>.
\<close>

datatype error =
    errorString string
  | AddrError string string
  | NumError string string error
  | ErrSyntax
  | ErrRange
  | EOF
  | ErrUnexpectedEOF
  | errOverflow
  | ErrShortWrite
  | OpError string
  | SyntaxError string
  | runtimeError string

text \<open>
  A call returns a value (\<open>Ok\<close>), returns a non-nil \<open>error\<close> (\<open>Err\<close>), or panics
  (\<open>Panic\<close>).
\<close>

datatype 'a outcome = Ok 'a | Err error | Panic error

fun is_Err :: "'a outcome \<Rightarrow> bool" where
  "is_Err (Err e) = True"
| "is_Err (Ok v) = False"
| "is_Err (Panic e) = False"

fun is_Panic :: "'a outcome \<Rightarrow> bool" where
  "is_Panic (Panic e) = True"
| "is_Panic (Ok v) = False"
| "is_Panic (Err e) = False"

subsection \<open>The varint encoder\<close>

text \<open>
  \<^verbatim>\<open>
  func encodeVarint(x uint64) []byte {
      var buf [10]byte
      var n int
      for n = 0; x > 127; n++ {
          buf[n] = 0x80 | uint8(x&0x7F)
          x >>= 7
      }
      buf[n] = uint8(x)
      n++
      return buf[0:n]
  }
  \<close>
  The loop is a recursive function on the buffer, the index and the rest of \<open>x\<close>.
  A store at an index outside the array panics in Go: here it is the result \<open>None\<close>.
\<close>

lemma drop7_less: "127 < x \<Longrightarrow> unat (drop_bit 7 x) < unat (x :: uint64)"
  by (simp add: unat_drop_bit_eq word_less_nat_alt drop_bit_eq_div unat_div)

function encodeVarint_loop ::
  "byte list \<Rightarrow> nat \<Rightarrow> uint64 \<Rightarrow> (byte list \<times> nat \<times> uint64) option" where
  "encodeVarint_loop buf n x =
     (if 127 < x then
        (if n < length buf
         then encodeVarint_loop (buf[n := 0x80 OR ucast (x AND 0x7F)]) (n + 1) (drop_bit 7 x)
         else None)
      else Some (buf, n, x))"
  by pat_completeness auto

termination
  by (relation "measure (\<lambda>(buf, n, x). unat x)") (simp_all add: drop7_less)

declare encodeVarint_loop.simps [simp del]

definition encodeVarint :: "uint64 \<Rightarrow> byte list option" where
  "encodeVarint x =
     (case encodeVarint_loop (replicate 10 0) 0 x of
        None \<Rightarrow> None
      | Some (buf, n, x') \<Rightarrow>
          if n < length buf then Some (take (n + 1) (buf[n := ucast x'])) else None)"

text \<open>
  The varint of the specification: seven bits a byte, the low group first, the bit
  \<open>0x80\<close> set on every byte but the last.
\<close>

function varint :: "uint64 \<Rightarrow> byte list" where
  "varint x =
     (if 127 < x then (0x80 OR ucast (x AND 0x7F)) # varint (drop_bit 7 x) else [ucast x])"
  by pat_completeness auto

termination
  by (relation "measure unat") (simp_all add: drop7_less)

declare varint.simps [simp del]

subsection \<open>The varint decoders of encoding/binary\<close>

text \<open>
  \<^verbatim>\<open>
  func Uvarint(buf []byte) (uint64, int) {
      var x uint64
      var s uint
      for i, b := range buf {
          if i == MaxVarintLen64 {
              return 0, -(i + 1) // overflow
          }
          if b < 0x80 {
              if i == MaxVarintLen64-1 && b > 1 {
                  return 0, -(i + 1) // overflow
              }
              return x | uint64(b)<<s, i + 1
          }
          x |= uint64(b&0x7f) << s
          s += 7
      }
      return 0, 0
  }
  \<close>
  with \<open>MaxVarintLen64 = 10\<close>. This is the function of the current standard library;
  older releases looked for the overflow only at the last byte of the varint. Both
  return a count of 0 or less whenever the first ten bytes all have the continuation
  bit.
\<close>

definition MaxVarintLen64 :: nat where
  "MaxVarintLen64 = 10"

fun Uvarint_loop :: "nat \<Rightarrow> uint64 \<Rightarrow> nat \<Rightarrow> byte list \<Rightarrow> uint64 \<times> int" where
  "Uvarint_loop i x s [] = (0, 0)"
| "Uvarint_loop i x s (b # bs) =
     (if i = MaxVarintLen64 then (0, - (int i + 1))
      else if b < 0x80 then
        (if i = MaxVarintLen64 - 1 \<and> 1 < b then (0, - (int i + 1))
         else (x OR push_bit s (ucast b), int i + 1))
      else Uvarint_loop (i + 1) (x OR push_bit s (ucast (b AND 0x7F))) (s + 7) bs)"

definition Uvarint :: "byte list \<Rightarrow> uint64 \<times> int" where
  "Uvarint buf = Uvarint_loop 0 0 0 buf"

text \<open>
  A byte sequence is a well-formed varint of \<open>x\<close> when \<open>Uvarint\<close> reads all of it
  and returns \<open>x\<close>.
\<close>

definition wellformed_varint :: "byte list \<Rightarrow> uint64 \<Rightarrow> bool" where
  "wellformed_varint v x = (v \<noteq> [] \<and> Uvarint v = (x, int (length v)))"

text \<open>A byte with the continuation bit \<open>0x80\<close> set: more bytes of the varint follow.\<close>

definition continued :: "byte \<Rightarrow> bool" where
  "continued b = (0x80 \<le> b)"

text \<open>
  \<^verbatim>\<open>
  func ReadUvarint(r io.ByteReader) (uint64, error) {
      var x uint64
      var s uint
      for i := 0; i < MaxVarintLen64; i++ {
          b, err := r.ReadByte()
          if err != nil {
              if i > 0 && err == io.EOF {
                  err = io.ErrUnexpectedEOF
              }
              return x, err
          }
          if b < 0x80 {
              if i == MaxVarintLen64-1 && b > 1 {
                  return x, errOverflow
              }
              return x | uint64(b)<<s, nil
          }
          x |= uint64(b&0x7f) << s
          s += 7
      }
      return x, errOverflow
  }
  \<close>
  A reader is the list of the bytes it still delivers before the end of the stream;
  \<open>ReadByte\<close> on the empty list fails with \<open>EOF\<close>. The function returns the result
  and what is left of the reader.
\<close>

fun ReadUvarint_loop ::
  "nat \<Rightarrow> uint64 \<Rightarrow> nat \<Rightarrow> byte list \<Rightarrow> (error + uint64) \<times> byte list" where
  "ReadUvarint_loop i x s [] =
     (if i < MaxVarintLen64 then (Inl (if 0 < i then ErrUnexpectedEOF else EOF), [])
      else (Inl errOverflow, []))"
| "ReadUvarint_loop i x s (b # r) =
     (if i < MaxVarintLen64 then
        (if b < 0x80 then
           (if i = MaxVarintLen64 - 1 \<and> 1 < b then (Inl errOverflow, r)
            else (Inr (x OR push_bit s (ucast b)), r))
         else ReadUvarint_loop (i + 1) (x OR push_bit s (ucast (b AND 0x7F))) (s + 7) r)
      else (Inl errOverflow, b # r))"

definition ReadUvarint :: "byte list \<Rightarrow> (error + uint64) \<times> byte list" where
  "ReadUvarint r = ReadUvarint_loop 0 0 0 r"

text \<open>
  \<open>io.ReadFull(r, buf)\<close> fills \<open>buf\<close> (of length \<open>n\<close>) or fails: with \<open>EOF\<close> when
  the stream ends before the first byte, with \<open>ErrUnexpectedEOF\<close> when it ends later.
\<close>

definition ReadFull :: "byte list \<Rightarrow> nat \<Rightarrow> (error + byte list) \<times> byte list" where
  "ReadFull r n =
     (if n \<le> length r then (Inr (take n r), drop n r)
      else (Inl (if r = [] then EOF else ErrUnexpectedEOF), []))"

text \<open>The slice expression \<open>pl[n:]\<close>: it panics unless \<open>0 \<le> n \<le> len(pl)\<close>.\<close>

definition slice_from :: "'a list \<Rightarrow> int \<Rightarrow> 'a list option" where
  "slice_from xs n = (if 0 \<le> n \<and> n \<le> int (length xs) then Some (drop (nat n) xs) else None)"

subsection \<open>bytes.Buffer and the packet framer\<close>

text \<open>A \<open>bytes.Buffer\<close> that is only written to is the list of its bytes.\<close>

type_synonym Buffer = "byte list"

definition WriteByte :: "Buffer \<Rightarrow> byte \<Rightarrow> Buffer" where
  "WriteByte pl b = pl @ [b]"

definition Write :: "Buffer \<Rightarrow> byte list \<Rightarrow> Buffer" where
  "Write pl bs = pl @ bs"

definition WriteString :: "Buffer \<Rightarrow> string \<Rightarrow> Buffer" where
  "WriteString pl s = pl @ map of_char s"

text \<open>
  \<^verbatim>\<open>
  func makePacket(pl *bytes.Buffer) *bytes.Buffer {
      var buf bytes.Buffer
      // get payload length
      buf.Write(encodeVarint(uint64(len(pl.Bytes()))))
      // write payload
      buf.Write(pl.Bytes())
      return &buf
  }
  \<close>
  \<open>None\<close> is the panic of \<open>encodeVarint\<close>.
\<close>

definition makePacket :: "Buffer \<Rightarrow> Buffer option" where
  "makePacket pl =
     (let buf = [] in
      case encodeVarint (of_nat (length pl)) of
        None \<Rightarrow> None
      | Some hdr \<Rightarrow>
          (let buf = Write buf hdr;
               buf = Write buf pl
           in Some buf))"

subsection \<open>net.SplitHostPort and strconv.Atoi\<close>

fun IndexByteString :: "string \<Rightarrow> char \<Rightarrow> nat option" where
  "IndexByteString [] c = None"
| "IndexByteString (x # xs) c =
     (if x = c then Some 0 else map_option Suc (IndexByteString xs c))"

definition LastIndexByteString :: "string \<Rightarrow> char \<Rightarrow> nat option" where
  "LastIndexByteString s c =
     (case IndexByteString (rev s) c of
        None \<Rightarrow> None
      | Some k \<Rightarrow> Some (length s - 1 - k))"

definition missingPort :: string where
  "missingPort = ''missing port in address''"

definition tooManyColons :: string where
  "tooManyColons = ''too many colons in address''"

text \<open>
  The last part of \<open>SplitHostPort\<close>: no bracket may be left in \<open>hostport[j:]\<close> and
  \<open>hostport[k:]\<close>; the port is what follows the last colon, at index \<open>i\<close>.
\<close>

definition SplitHostPort_tail ::
  "string \<Rightarrow> string \<Rightarrow> nat \<Rightarrow> nat \<Rightarrow> nat \<Rightarrow> error + string \<times> string" where
  "SplitHostPort_tail hostport host j k i =
     (if IndexByteString (drop j hostport) (CHR ''['') \<noteq> None
      then Inl (AddrError ''unexpected '[' in address'' hostport)
      else if IndexByteString (drop k hostport) (CHR '']'') \<noteq> None
      then Inl (AddrError ''unexpected ']' in address'' hostport)
      else Inr (host, drop (i + 1) hostport))"

text \<open>
  \<open>SplitHostPort\<close> splits \<open>host:port\<close>, \<open>[host]:port\<close> at the last colon. The
  host of the bracketed form is \<open>hostport[1:end]\<close>, up to the first \<open>]\<close>, which must
  stand just before the last colon.
\<close>

definition SplitHostPort :: "string \<Rightarrow> error + string \<times> string" where
  "SplitHostPort hostport =
     (case LastIndexByteString hostport (CHR '':'') of
        None \<Rightarrow> Inl (AddrError missingPort hostport)
      | Some i \<Rightarrow>
          if take 1 hostport = ''[''
          then
            (case IndexByteString hostport (CHR '']'') of
               None \<Rightarrow> Inl (AddrError ''missing ']' in address'' hostport)
             | Some e \<Rightarrow>
                 if e + 1 = length hostport then Inl (AddrError missingPort hostport)
                 else if e + 1 = i
                 then SplitHostPort_tail hostport (take (e - 1) (drop 1 hostport)) 1 (e + 1) i
                 else if take 1 (drop (e + 1) hostport) = '':''
                 then Inl (AddrError tooManyColons hostport)
                 else Inl (AddrError missingPort hostport))
          else
            (let host = take i hostport in
             if IndexByteString host (CHR '':'') \<noteq> None
             then Inl (AddrError tooManyColons hostport)
             else SplitHostPort_tail hostport host 0 0 i))"

text \<open>
  \<open>strconv.Atoi\<close> on a 64-bit platform. Its fast path reads up to 18 characters: an
  optional sign, then decimal digits. Longer inputs, and the empty one, go through
  \<open>ParseInt(s, 10, 0)\<close>, which reads the digits with \<open>ParseUint\<close> and checks the range
  of \<open>int64\<close>. Every failure is a \<open>NumError\<close> of \<open>Atoi\<close> on the whole input.
\<close>

fun Atoi_digits :: "go_int \<Rightarrow> string \<Rightarrow> go_int option" where
  "Atoi_digits n [] = Some n"
| "Atoi_digits n (c # cs) =
     (let ch = (of_char c :: byte) - 0x30 in
      if 9 < ch then None else Atoi_digits (n * 10 + ucast ch) cs)"

fun ParseUint_loop :: "int \<Rightarrow> string \<Rightarrow> error + int" where
  "ParseUint_loop n [] = Inr n"
| "ParseUint_loop n (c # cs) =
     (let d = (of_char c :: int) - 48 in
      if \<not> (48 \<le> (of_char c :: int) \<and> (of_char c :: int) \<le> 57) then Inl ErrSyntax
      else if 2 ^ 64 div 10 + 1 \<le> n then Inl ErrRange
      else if 2 ^ 64 - 1 < n * 10 + d then Inl ErrRange
      else ParseUint_loop (n * 10 + d) cs)"

definition ParseUint :: "string \<Rightarrow> error + int" where
  "ParseUint s = (if s = [] then Inl ErrSyntax else ParseUint_loop 0 s)"

definition ParseInt :: "string \<Rightarrow> error + go_int" where
  "ParseInt s =
     (if s = [] then Inl ErrSyntax
      else
        (let neg = (hd s = CHR ''-'');
             s1 = (if hd s = CHR ''+'' \<or> hd s = CHR ''-'' then tl s else s)
         in case ParseUint s1 of
              Inl ErrSyntax \<Rightarrow> Inl ErrSyntax
            | Inl err \<Rightarrow> Inl ErrRange
            | Inr un \<Rightarrow>
                if \<not> neg \<and> 2 ^ 63 \<le> un then Inl ErrRange
                else if neg \<and> 2 ^ 63 < un then Inl ErrRange
                else Inr (if neg then - of_int un else of_int un)))"

definition Atoi :: "string \<Rightarrow> error + go_int" where
  "Atoi s =
     (if 0 < length s \<and> length s < 19 then
        (let signed = (hd s = CHR ''-'' \<or> hd s = CHR ''+'');
             s1 = (if signed then tl s else s)
         in if signed \<and> length s1 < 1 then Inl (NumError ''Atoi'' s ErrSyntax)
            else
              (case Atoi_digits 0 s1 of
                 None \<Rightarrow> Inl (NumError ''Atoi'' s ErrSyntax)
               | Some n \<Rightarrow> Inr (if hd s = CHR ''-'' then - n else n)))
      else
        (case ParseInt s of
           Inl err \<Rightarrow> Inl (NumError ''Atoi'' s err)
         | Inr n \<Rightarrow> Inr n))"

text \<open>
  The conversion \<open>int16(iPort)\<close> keeps the low 16 bits; \<open>binary.Write\<close> with
  \<open>binary.BigEndian\<close> writes an \<open>int16\<close> as the two bytes \<open>byte(v >> 8), byte(v)\<close> of
  \<open>uint16(v)\<close>.
\<close>

definition int16 :: "go_int \<Rightarrow> 16 word" where
  "int16 v = ucast v"

definition binary_Write_int16 :: "Buffer \<Rightarrow> 16 word \<Rightarrow> Buffer" where
  "binary_Write_int16 pl v = pl @ [ucast (drop_bit 8 v), ucast v]"

subsection \<open>The connection\<close>

text \<open>
  A \<open>net.Conn\<close> is a record: the bytes written to it so far, the bytes the server
  sends before it closes the stream, how many more bytes it accepts before a write
  fails (\<open>None\<close>: every write succeeds), and whether it has been closed.
\<close>

record Conn =
  sent :: "byte list"
  incoming :: "byte list"
  wlimit :: "nat option"
  closed :: bool

definition Conn_Write :: "Conn \<Rightarrow> byte list \<Rightarrow> (nat \<times> error option) \<times> Conn" where
  "Conn_Write c bs =
     (case wlimit c of
        None \<Rightarrow> ((length bs, None), c\<lparr>sent := sent c @ bs\<rparr>)
      | Some k \<Rightarrow>
          if length bs \<le> k
          then ((length bs, None), c\<lparr>sent := sent c @ bs, wlimit := Some (k - length bs)\<rparr>)
          else ((k, Some (OpError ''write'')),
                c\<lparr>sent := sent c @ take k bs, wlimit := Some 0\<rparr>))"

text \<open>
  \<open>(*bytes.Buffer).WriteTo(w)\<close> hands the whole buffer to one \<open>w.Write\<close> when it is
  not empty, and fails when the write fails or is short.
\<close>

definition WriteTo :: "Buffer \<Rightarrow> Conn \<Rightarrow> error option \<times> Conn" where
  "WriteTo buf c =
     (if 0 < length buf then
        (case Conn_Write c buf of
           ((m, Some e), c') \<Rightarrow> (Some e, c')
         | ((m, None), c') \<Rightarrow> if m \<noteq> length buf then (Some ErrShortWrite, c') else (None, c'))
      else (None, c))"

definition Close :: "Conn \<Rightarrow> Conn" where
  "Close c = c\<lparr>closed := True\<rparr>"

text \<open>
  A connection just opened, no write of which fails, to a server that sends \<open>bs\<close> and
  closes.
\<close>

definition newConn :: "byte list \<Rightarrow> Conn" where
  "newConn bs = \<lparr>sent = [], incoming = bs, wlimit = None, closed = False\<rparr>"

subsection \<open>The outbound packets\<close>

definition protocolVersion :: byte where
  "protocolVersion = 0x2F"

text \<open>
  \<^verbatim>\<open>
  func sendHandShake(conn net.Conn, host string) error {
      pl := &bytes.Buffer{}
      pl.WriteByte(0x00)                         // packet id
      pl.WriteByte(protocolVersion)              // protocol version
      host, port, err := net.SplitHostPort(host) // server address
      if err != nil {
          panic(err)
      }
      pl.Write(encodeVarint(uint64(len(host))))
      pl.WriteString(host)
      iPort, err := strconv.Atoi(port)           // server port
      if err != nil {
          panic(err)
      }
      binary.Write(pl, binary.BigEndian, int16(iPort))
      pl.WriteByte(0x01)                         // next state (status)
      if _, err := makePacket(pl).WriteTo(conn); err != nil {
          return errors.New("cannot write handshake")
      }
      return nil
  }
  \<close>
  The function returns its result and the connection as it leaves it.
\<close>

definition indexPanic :: error where
  "indexPanic = runtimeError ''index out of range''"

definition sendHandShake :: "Conn \<Rightarrow> string \<Rightarrow> unit outcome \<times> Conn" where
  "sendHandShake conn hostport =
     (let pl = [];
          pl = WriteByte pl 0x00;
          pl = WriteByte pl protocolVersion
      in case SplitHostPort hostport of
           Inl err \<Rightarrow> (Panic err, conn)
         | Inr (host, port) \<Rightarrow>
             (case encodeVarint (of_nat (length host)) of
                None \<Rightarrow> (Panic indexPanic, conn)
              | Some hl \<Rightarrow>
                  (let pl = Write pl hl;
                       pl = WriteString pl host
                   in case Atoi port of
                        Inl err \<Rightarrow> (Panic err, conn)
                      | Inr iPort \<Rightarrow>
                          (let pl = binary_Write_int16 pl (int16 iPort);
                               pl = WriteByte pl 0x01
                           in case makePacket pl of
                                None \<Rightarrow> (Panic indexPanic, conn)
                              | Some pkt \<Rightarrow>
                                  (case WriteTo pkt conn of
                                     (Some e, c') \<Rightarrow>
                                       (Err (errorString ''cannot write handshake''), c')
                                   | (None, c') \<Rightarrow> (Ok (), c'))))))"

text \<open>
  The payload of the handshake for a host and a port: packet id, protocol version, the
  host with its length, the port, the next state.
\<close>

definition handshake_payload :: "string \<Rightarrow> go_int \<Rightarrow> byte list" where
  "handshake_payload host iPort =
     [0x00] @ [0x2F] @ varint (of_nat (length host)) @ map of_char host @
     [ucast (drop_bit 8 (int16 iPort)), ucast (int16 iPort)] @ [0x01]"

text \<open>
  \<^verbatim>\<open>
  func sendStatusRequest(conn net.Conn) error {
      pl := &bytes.Buffer{}
      pl.WriteByte(0x00)   // send request zero
      if _, err := makePacket(pl).WriteTo(conn); err != nil {
          return errors.New("cannot write send status request")
      }
      return nil
  }
  \<close>
\<close>

definition sendStatusRequest :: "Conn \<Rightarrow> unit outcome \<times> Conn" where
  "sendStatusRequest conn =
     (let pl = [];
          pl = WriteByte pl 0x00
      in case makePacket pl of
           None \<Rightarrow> (Panic indexPanic, conn)
         | Some pkt \<Rightarrow>
             (case WriteTo pkt conn of
                (Some e, c') \<Rightarrow> (Err (errorString ''cannot write send status request''), c')
              | (None, c') \<Rightarrow> (Ok (), c')))"

subsection \<open>The response\<close>

text \<open>
  What \<open>json.Unmarshal\<close> puts into an \<open>interface{}\<close>: \<open>nil\<close>, a \<open>bool\<close>, a
  \<open>float64\<close> (here the 64 bits of the IEEE 754 double), a \<open>string\<close>, a slice or a
  map of such values.
\<close>

type_synonym float64 = "64 word"

datatype json_value =
    JSONNull
  | JSONBool bool
  | JSONNumber float64
  | JSONString string
  | JSONArray "json_value list"
  | JSONObject "(string \<times> json_value) list"

record Version =
  Name :: string
  Protocol :: go_int

record Players =
  Max' :: go_int
  Online :: go_int
  Sample :: "(string \<times> string) list list"

record PingResponse =
  Version :: Version
  Players :: Players
  Description :: json_value
  Favicon :: string

text \<open>
  The environment of a run: the largest length \<open>make([]byte, n)\<close> accepts before it
  panics, what \<open>net.DialTimeout\<close> answers for an address, and what \<open>json.Unmarshal\<close>
  makes of a document when it fills an empty \<open>PingResponse\<close>.
\<close>

record env =
  maxAlloc :: nat
  DialTimeout :: "string \<Rightarrow> error + Conn"
  Unmarshal :: "byte list \<Rightarrow> error + PingResponse"

text \<open>
  The value of \<open>PingResponse{}\<close>, which \<open>readPong\<close> hands to \<open>json.Unmarshal\<close>
  to fill.
\<close>

definition emptyResponse :: PingResponse where
  "emptyResponse =
     \<lparr>Version = \<lparr>Name = [], Protocol = 0\<rparr>,
      Players = \<lparr>Max' = 0, Online = 0, Sample = []\<rparr>,
      Description = JSONNull,
      Favicon = []\<rparr>"

text \<open>
  An environment to run the model in. Its \<open>Unmarshal\<close> knows one document, the empty
  object \<open>{}\<close> with spaces after it, which leaves the response empty, and rejects
  every other input; its \<open>DialTimeout\<close> connects every address to a server that sends
  \<open>bs\<close>; its \<open>make\<close> accepts \<open>2^48\<close> bytes, as on linux/amd64.
\<close>

definition Unmarshal_empty_object :: "byte list \<Rightarrow> error + PingResponse" where
  "Unmarshal_empty_object bs =
     (if take 2 bs = [0x7B, 0x7D] \<and> list_all (\<lambda>b. b = 0x20) (drop 2 bs)
      then Inr emptyResponse
      else Inl (SyntaxError ''invalid character''))"

definition testEnv :: "byte list \<Rightarrow> env" where
  "testEnv bs =
     \<lparr>maxAlloc = 2 ^ 48,
      DialTimeout = (\<lambda>host. Inr (newConn bs)),
      Unmarshal = Unmarshal_empty_object\<rparr>"

text \<open>
  The same environment with a dial that, as \<open>net.DialTimeout\<close> does, splits the
  address first and fails when it does not split.
\<close>

definition DialTimeout_checked :: "byte list \<Rightarrow> string \<Rightarrow> error + Conn" where
  "DialTimeout_checked bs host =
     (case SplitHostPort host of
        Inl err \<Rightarrow> Inl (OpError ''dial'')
      | Inr hp \<Rightarrow> Inr (newConn bs))"

definition checkedEnv :: "byte list \<Rightarrow> env" where
  "checkedEnv bs = (testEnv bs)\<lparr>DialTimeout := DialTimeout_checked bs\<rparr>"

text \<open>
  \<^verbatim>\<open>
  func readPong(rd io.Reader) (*PingResponse, error) {
      r := bufio.NewReader(rd)
      nl, err := binary.ReadUvarint(r)
      if err != nil {
          return nil, errors.New("could not read length")
      }
      pl := make([]byte, nl)
      _, err = io.ReadFull(r, pl)
      if err != nil {
          return nil, errors.New("could not read length given by length header")
      }
      _, n := binary.Uvarint(pl)          // packet id
      if n <= 0 {
          return nil, errors.New("could not read packet id")
      }
      _, n2 := binary.Uvarint(pl[n:])     // string varint
      if n2 <= 0 {
          return nil, errors.New("could not read string varint")
      }
      res := PingResponse{}
      if err := json.Unmarshal(pl[n+n2:], &res); err != nil {
          return nil, errors.New("could not read pong json")
      }
      return &res, nil
  }
  \<close>
\<close>

definition slicePanic :: error where
  "slicePanic = runtimeError ''slice bounds out of range''"

definition readPong :: "env \<Rightarrow> byte list \<Rightarrow> PingResponse outcome" where
  "readPong E rd =
     (case ReadUvarint rd of
        (Inl err, r) \<Rightarrow> Err (errorString ''could not read length'')
      | (Inr nl, r) \<Rightarrow>
          if maxAlloc E < unat nl then Panic (runtimeError ''makeslice: len out of range'')
          else
            (case ReadFull r (unat nl) of
               (Inl err, r') \<Rightarrow>
                 Err (errorString ''could not read length given by length header'')
             | (Inr pl, r') \<Rightarrow>
                 (case Uvarint pl of
                    (u, n) \<Rightarrow>
                      if n \<le> 0 then Err (errorString ''could not read packet id'')
                      else
                        (case slice_from pl n of
                           None \<Rightarrow> Panic slicePanic
                         | Some pl1 \<Rightarrow>
                             (case Uvarint pl1 of
                                (u2, n2) \<Rightarrow>
                                  if n2 \<le> 0
                                  then Err (errorString ''could not read string varint'')
                                  else
                                    (case slice_from pl (n + n2) of
                                       None \<Rightarrow> Panic slicePanic
                                     | Some body \<Rightarrow>
                                         (case Unmarshal E body of
                                            Inl err \<Rightarrow>
                                              Err (errorString ''could not read pong json'')
                                          | Inr res \<Rightarrow> Ok res)))))))"

subsection \<open>Ping\<close>

text \<open>\<open>fmt.Sprintf("%s:%d", address, port)\<close>: the decimal digits of a Go \<open>int\<close>.\<close>

definition digits :: string where
  "digits = ''0123456789''"

function FormatUint :: "nat \<Rightarrow> string" where
  "FormatUint n =
     (if n < 10 then [digits ! n]
      else FormatUint (n div 10) @ [digits ! (n mod 10)])"
  by pat_completeness auto

termination
  by (relation "measure id") simp_all

declare FormatUint.simps [simp del]

definition FormatInt :: "go_int \<Rightarrow> string" where
  "FormatInt p =
     (if sint p < 0 then CHR ''-'' # FormatUint (nat (- sint p)) else FormatUint (nat (sint p)))"

text \<open>
  \<^verbatim>\<open>
  func Ping(address string, port int) (*PingResponse, error) {
      host := fmt.Sprintf("%s:%d", address, port)
      conn, err := net.DialTimeout("tcp", host, 3*time.Second)
      if err != nil {
          return nil, err
      }
      defer conn.Close()
      if err := sendHandShake(conn, host); err != nil {
          return nil, err
      }
      if err := sendStatusRequest(conn); err != nil {
          return nil, err
      }
      pong, err := readPong(conn)
      if err != nil {
          return nil, err
      }
      return pong, nil
  }
  \<close>
  The result comes with the connection as \<open>Ping\<close> leaves it (\<open>None\<close> when none was
  opened); the deferred \<open>Close\<close> runs on every way out, a panic included.
\<close>

definition Ping :: "env \<Rightarrow> string \<Rightarrow> go_int \<Rightarrow> PingResponse outcome \<times> Conn option" where
  "Ping E address port =
     (let host = address @ '':'' @ FormatInt port in
      case DialTimeout E host of
        Inl err \<Rightarrow> (Err err, None)
      | Inr conn \<Rightarrow>
          (case sendHandShake conn host of
             (Panic e, c1) \<Rightarrow> (Panic e, Some (Close c1))
           | (Err e, c1) \<Rightarrow> (Err e, Some (Close c1))
           | (Ok u, c1) \<Rightarrow>
               (case sendStatusRequest c1 of
                  (Panic e, c2) \<Rightarrow> (Panic e, Some (Close c2))
                | (Err e, c2) \<Rightarrow> (Err e, Some (Close c2))
                | (Ok u, c2) \<Rightarrow> (readPong E (incoming c2), Some (Close c2)))))"

section \<open>Properties\<close>

subsection \<open>Bytes and seven-bit groups\<close>

lemma mask7: "(0x7F :: 'a::len word) = mask 7"
  by (simp add: mask_eq_exp_minus_1)

lemma bits_join: "push_bit s (x AND 0x7F) OR push_bit (s + 7) (drop_bit 7 x) = push_bit s (x :: uint64)"
proof (rule bit_word_eqI)
  fix n assume "n < LENGTH(64)"
  have *: "7 \<le> n - s \<Longrightarrow> 7 + (n - (s + 7)) = n - s" by arith
  show "bit (push_bit s (x AND 0x7F) OR push_bit (s + 7) (drop_bit 7 x)) n = bit (push_bit s x) n"
    unfolding mask7 using * by (cases "n - s < 7") (auto simp add: bit_simps)
qed

lemma bit128: "bit (0x80 :: byte) n \<longleftrightarrow> n = 7"
proof -
  have "bit ((2::byte) ^ 7) n \<longleftrightarrow> n = 7"
    by (simp only: bit_exp_iff) auto
  then show ?thesis by simp
qed

lemma clear_cont: "((0x80 :: byte) OR y) AND 0x7F = y AND 0x7F"
proof (rule bit_word_eqI)
  fix n assume "n < LENGTH(8)"
  have "bit (((0x80 :: byte) OR y) AND mask 7) n = bit (y AND mask 7) n"
    by (simp only: bit_and_iff bit_or_iff bit_mask_iff bit128) auto
  then show "bit (((0x80 :: byte) OR y) AND 0x7F) n = bit (y AND 0x7F) n"
    by (simp only: mask7)
qed

lemma low7_back: "(ucast ((ucast (x AND 0x7F) :: byte) AND 0x7F) :: uint64) = x AND 0x7F"
  unfolding mask7
  by (rule bit_word_eqI) (auto simp add: bit_simps)

lemma low7_ucast: "(ucast (((0x80 :: byte) OR ucast (x AND 0x7F)) AND 0x7F) :: uint64) = x AND 0x7F"
  by (simp only: clear_cont low7_back)

lemma cont_byte_ge: "\<not> ((0x80 :: byte) OR y < 0x80)"
  by (simp add: not_less le_word_or2) 

lemma small_ucast: "\<not> 127 < (x::uint64) \<Longrightarrow> (ucast (ucast x :: byte) :: uint64) = x"
  by (simp add: not_less word_unat_eq_iff word_le_nat_alt unsigned_ucast_eq take_bit_eq_mod unat_mod)

lemma small_byte: "\<not> 127 < (x::uint64) \<Longrightarrow> (ucast x :: byte) < 0x80"
  by (simp add: not_less word_less_nat_alt word_le_nat_alt unsigned_ucast_eq take_bit_eq_mod)

lemma small_byte1: "unat (x::uint64) < 2 \<Longrightarrow> \<not> 1 < (ucast x :: byte)"
  by (simp add: not_less word_less_nat_alt word_le_nat_alt unsigned_ucast_eq take_bit_eq_mod)

lemma room_step:
  assumes "127 < (x::uint64)" "unat x < 2 ^ (64 - 7 * n)" "n \<le> 9"
  shows "n \<le> 8" "unat (drop_bit 7 x) < 2 ^ (64 - 7 * (n + 1))"
proof -
  from assms(1) have big: "127 < unat x" by (simp add: word_less_nat_alt)
  show n8: "n \<le> 8"
  proof (rule ccontr)
    assume "\<not> n \<le> 8"
    with assms(3) have "n = 9" by arith
    with assms(2) big show False by simp
  qed
  define k where "k = 64 - 7 * (n + 1)"
  have k7: "64 - 7 * n = k + 7" using n8 by (simp add: k_def)
  have "unat x < 2 ^ k * 128"
    using assms(2) by (simp only: k7 power_add) simp
  then have "unat x div 128 < 2 ^ k"
    by (simp add: less_mult_imp_div_less)
  then show "unat (drop_bit 7 x) < 2 ^ (64 - 7 * (n + 1))"
    by (simp add: unat_drop_bit_eq drop_bit_eq_div unat_div k_def)
qed

lemma encodeVarint_loop_varint:
  "length buf = 10 \<Longrightarrow> unat x < 2 ^ (64 - 7 * n) \<Longrightarrow> n \<le> 9 \<Longrightarrow>
   \<exists>buf' n' x'. encodeVarint_loop buf n x = Some (buf', n', x') \<and> n' < 10 \<and>
      length buf' = 10 \<and> take (n' + 1) (buf'[n' := ucast x']) = take n buf @ varint x"
proof (induction buf n x rule: encodeVarint_loop.induct)
  case (1 buf n x)
  show ?case
  proof (cases "127 < x")
    case True
    from room_step[OF True "1.prems"(2,3)]
    have n8: "n \<le> 8" and room: "unat (drop_bit 7 x) < 2 ^ (64 - 7 * (n + 1))" by auto
    let ?b = "0x80 OR ucast (x AND 0x7F) :: byte"
    have nlt: "n < length buf" using n8 "1.prems"(1) by simp
    from "1.IH"[OF True nlt _ room] "1.prems"(1) n8
    obtain buf' n' x' where
      r: "encodeVarint_loop (buf[n := ?b]) (n + 1) (drop_bit 7 x) = Some (buf', n', x')"
      and b: "n' < 10" "length buf' = 10"
      and t: "take (n' + 1) (buf'[n' := ucast x']) = take (n + 1) (buf[n := ?b]) @ varint (drop_bit 7 x)"
      by auto
    have "take (n + 1) (buf[n := ?b]) = take n buf @ [?b]"
      using nlt by (simp add: take_Suc_conv_app_nth)
    with t have "take (n' + 1) (buf'[n' := ucast x']) = take n buf @ varint x"
      using True by (subst varint.simps) simp
    with r b True nlt show ?thesis
      by (subst encodeVarint_loop.simps) simp
  next
    case False
    have nlt: "n < length buf" using "1.prems" by simp
    have "take (n + 1) (buf[n := ucast x]) = take n buf @ [ucast x]"
      using nlt by (simp add: take_Suc_conv_app_nth)
    with False "1.prems" show ?thesis
      by (subst encodeVarint_loop.simps, subst varint.simps) simp
  qed
qed

lemma unat_lt_64: "unat (x::uint64) < 2 ^ 64"
  using unsigned_less[of x, where 'a = nat] by simp

lemma encodeVarint_varint: "encodeVarint x = Some (varint x)"
proof -
  have "unat x < 2 ^ (64 - 7 * 0)" using unat_lt_64[of x] by simp
  from encodeVarint_loop_varint[OF _ this, of "replicate 10 0"]
  show ?thesis by (auto simp: encodeVarint_def)
qed

lemma Uvarint_loop_varint:
  "unat y < 2 ^ (64 - 7 * i) \<Longrightarrow> i \<le> 9 \<Longrightarrow>
   Uvarint_loop i acc (7 * i) (varint y @ rest) =
     (acc OR push_bit (7 * i) y, int i + int (length (varint y)))"
proof (induction y arbitrary: i acc rule: varint.induct)
  case (1 x)
  show ?case
  proof (cases "127 < x")
    case True
    from room_step[OF True "1.prems"]
    have n8: "i \<le> 8" and room: "unat (drop_bit 7 x) < 2 ^ (64 - 7 * (i + 1))" by auto
    have s: "7 * (i + 1) = 7 * i + 7" by simp
    have v: "varint x = (0x80 OR ucast (x AND 0x7F)) # varint (drop_bit 7 x)"
      using True by (subst varint.simps) simp
    from n8 have i10: "i \<noteq> MaxVarintLen64" by (simp add: MaxVarintLen64_def)
    let ?b = "0x80 OR ucast (x AND 0x7F) :: byte"
    have "Uvarint_loop i acc (7 * i) ((?b # varint (drop_bit 7 x)) @ rest) =
          Uvarint_loop (i + 1) (acc OR push_bit (7 * i) (ucast (?b AND 0x7F))) (7 * i + 7)
            (varint (drop_bit 7 x) @ rest)"
      using i10 cont_byte_ge[of "ucast (x AND 0x7F)"] by simp
    also have "\<dots> = Uvarint_loop (i + 1) (acc OR push_bit (7 * i) (x AND 0x7F)) (7 * (i + 1))
            (varint (drop_bit 7 x) @ rest)"
      by (simp only: low7_ucast s)
    also have "\<dots> = ((acc OR push_bit (7 * i) (x AND 0x7F)) OR push_bit (7 * (i + 1)) (drop_bit 7 x),
                      int (i + 1) + int (length (varint (drop_bit 7 x))))"
      using n8 by (intro "1.IH"[OF True room]) simp
    also have "\<dots> = (acc OR push_bit (7 * i) x, int i + int (length (?b # varint (drop_bit 7 x))))"
      by (simp only: s or.assoc bits_join) simp
    finally show ?thesis unfolding v .
  next
    case False
    have v: "varint x = [ucast x]"
      using False by (subst varint.simps) simp
    from "1.prems" have i10: "i \<noteq> MaxVarintLen64" by (simp add: MaxVarintLen64_def)
    have "i = 9 \<Longrightarrow> \<not> 1 < (ucast x :: byte)"
      using "1.prems"(1) by (intro small_byte1) simp
    then show ?thesis
      unfolding v using False i10
      by (simp add: small_byte small_ucast MaxVarintLen64_def)
  qed
qed

lemma Uvarint_varint: "Uvarint (varint x @ rest) = (x, int (length (varint x)))"
  using Uvarint_loop_varint[of x 0 0 rest] unat_lt_64[of x]
  by (simp add: Uvarint_def)

lemma varint_length: "1 \<le> length (varint x) \<and> length (varint x) \<le> 10"
proof -
  have "unat x < 2 ^ (64 - 7 * 0)" using unat_lt_64[of x] by simp
  from encodeVarint_loop_varint[OF _ this, of "replicate 10 0"]
  have "\<exists>(buf' :: byte list) n' (x' :: uint64). n' < 10 \<and> length buf' = 10 \<and>
          take (n' + 1) (buf'[n' := ucast x']) = varint x"
    by simp blast
  then obtain buf' :: "byte list" and n' and x' :: uint64
    where n': "n' < 10" and len: "length buf' = 10"
      and t: "take (n' + 1) (buf'[n' := ucast x']) = varint x"
    by blast
  have "length (take (n' + 1) (buf'[n' := ucast x'])) = n' + 1"
    using n' len by simp
  with t n' show ?thesis by simp
qed

subsection \<open>Reading varints and framed payloads\<close>

lemma ReadUvarint_loop_varint:
  "unat y < 2 ^ (64 - 7 * i) \<Longrightarrow> i \<le> 9 \<Longrightarrow>
   ReadUvarint_loop i acc (7 * i) (varint y @ rest) = (Inr (acc OR push_bit (7 * i) y), rest)"
proof (induction y arbitrary: i acc rule: varint.induct)
  case (1 x)
  from "1.prems" have i10: "i < MaxVarintLen64" by (simp add: MaxVarintLen64_def)
  show ?case
  proof (cases "127 < x")
    case True
    from room_step[OF True "1.prems"]
    have n8: "i \<le> 8" and room: "unat (drop_bit 7 x) < 2 ^ (64 - 7 * (i + 1))" by auto
    have s: "7 * (i + 1) = 7 * i + 7" by simp
    have v: "varint x = (0x80 OR ucast (x AND 0x7F)) # varint (drop_bit 7 x)"
      using True by (subst varint.simps) simp
    let ?b = "0x80 OR ucast (x AND 0x7F) :: byte"
    have "ReadUvarint_loop i acc (7 * i) ((?b # varint (drop_bit 7 x)) @ rest) =
          ReadUvarint_loop (i + 1) (acc OR push_bit (7 * i) (ucast (?b AND 0x7F))) (7 * i + 7)
            (varint (drop_bit 7 x) @ rest)"
      using i10 cont_byte_ge[of "ucast (x AND 0x7F)"] by simp
    also have "\<dots> = ReadUvarint_loop (i + 1) (acc OR push_bit (7 * i) (x AND 0x7F)) (7 * (i + 1))
            (varint (drop_bit 7 x) @ rest)"
      by (simp only: low7_ucast s)
    also have "\<dots> = (Inr ((acc OR push_bit (7 * i) (x AND 0x7F)) OR push_bit (7 * (i + 1)) (drop_bit 7 x)), rest)"
      using n8 by (intro "1.IH"[OF True room]) simp
    also have "\<dots> = (Inr (acc OR push_bit (7 * i) x), rest)"
      by (simp only: s or.assoc bits_join)
    finally show ?thesis unfolding v .
  next
    case False
    have v: "varint x = [ucast x]"
      using False by (subst varint.simps) simp
    have "i = 9 \<Longrightarrow> \<not> 1 < (ucast x :: byte)"
      using "1.prems"(1) by (intro small_byte1) simp
    then show ?thesis
      unfolding v using False i10
      by (simp add: small_byte small_ucast MaxVarintLen64_def)
  qed
qed

lemma ReadUvarint_varint: "ReadUvarint (varint x @ rest) = (Inr x, rest)"
  using ReadUvarint_loop_varint[of x 0 0 rest] unat_lt_64[of x]
  by (simp add: ReadUvarint_def)

lemma Uvarint_loop_append:
  "Uvarint_loop i acc s v = (x, n) \<Longrightarrow> 0 < n \<Longrightarrow> Uvarint_loop i acc s (v @ rest) = (x, n)"
  by (induction i acc s v rule: Uvarint_loop.induct) (auto split: if_splits)

lemma Uvarint_append:
  "Uvarint v = (x, n) \<Longrightarrow> 0 < n \<Longrightarrow> Uvarint (v @ rest) = (x, n)"
  unfolding Uvarint_def by (rule Uvarint_loop_append)

lemma Uvarint_loop_consumed:
  "Uvarint_loop i acc s v = (x, n) \<Longrightarrow> 0 < n \<Longrightarrow> int i < n \<and> n \<le> int i + int (length v)"
  by (induction i acc s v rule: Uvarint_loop.induct) (auto split: if_splits)

lemma Uvarint_consumed:
  "Uvarint v = (x, n) \<Longrightarrow> 0 < n \<Longrightarrow> n \<le> int (length v)"
  unfolding Uvarint_def using Uvarint_loop_consumed[of 0 0 0 v x n] by simp


lemma ReadUvarint_loop_Uvarint:
  "Uvarint_loop i acc s v = (x, int i + int (length v)) \<Longrightarrow> v \<noteq> [] \<Longrightarrow>
   i \<le> MaxVarintLen64 \<Longrightarrow> ReadUvarint_loop i acc s (v @ rest) = (Inr x, rest)"
proof (induction i acc s v rule: Uvarint_loop.induct)
  case (1 i x s)
  then show ?case by simp
next
  case (2 i acc s b bs)
  show ?case
  proof (cases "i \<noteq> MaxVarintLen64 \<and> \<not> b < 0x80")
    case True
    have "bs \<noteq> []"
    proof
      assume "bs = []"
      with True "2.prems"(1) show False by simp
    qed
    with True "2.prems" "2.IH" show ?thesis by simp
  next
    case False
    with "2.prems" show ?thesis by (auto split: if_splits)
  qed
qed

lemma ReadUvarint_wellformed:
  "wellformed_varint v x \<Longrightarrow> ReadUvarint (v @ rest) = (Inr x, rest)"
  unfolding wellformed_varint_def ReadUvarint_def Uvarint_def
  using ReadUvarint_loop_Uvarint[of 0 0 0 v x rest] by simp

lemma Uvarint_wellformed:
  "wellformed_varint v x \<Longrightarrow> Uvarint (v @ rest) = (x, int (length v))"
  unfolding wellformed_varint_def by (auto intro: Uvarint_append)

lemma wellformed_varint_encode: "encodeVarint x = Some v \<Longrightarrow> wellformed_varint v x"
  using Uvarint_varint[of x "[]"] varint_length[of x]
  by (auto simp: wellformed_varint_def encodeVarint_varint)

lemma ReadFull_exact: "ReadFull (pl @ extra) (length pl) = (Inr pl, extra)"
  by (simp add: ReadFull_def)

lemma slice_from_append: "slice_from (v @ rest) (int (length v)) = Some rest"
  by (simp add: slice_from_def)

lemma slice_from_append2:
  "slice_from (v1 @ v2 @ rest) (int (length v1) + int (length v2)) = Some rest"
  using slice_from_append[of "v1 @ v2" rest] by simp

lemma readPong_wellformed:
  assumes v1: "wellformed_varint v1 pid" and v2: "wellformed_varint v2 M"
    and hdr: "wellformed_varint hdr N"
    and len: "unat N = length (v1 @ v2 @ js)"
    and alloc: "unat N \<le> maxAlloc E"
  shows "readPong E (hdr @ (v1 @ v2 @ js) @ extra) =
           (case Unmarshal E js of
              Inl err \<Rightarrow> Err (errorString ''could not read pong json'')
            | Inr res \<Rightarrow> Ok res)"
proof -
  have n1: "0 < int (length v1)" and n2: "0 < int (length v2)"
    using v1 v2 by (simp_all add: wellformed_varint_def)
  have rf: "ReadFull (v1 @ v2 @ js @ extra) (unat N) = (Inr (v1 @ v2 @ js), extra)"
    unfolding len using ReadFull_exact[of "v1 @ v2 @ js" extra] by simp
  show ?thesis
    unfolding readPong_def
    using alloc n1 n2
    by (simp add: ReadUvarint_wellformed[OF hdr] rf Uvarint_wellformed[OF v1]
          Uvarint_wellformed[OF v2] slice_from_append slice_from_append2 split: sum.splits)
qed

subsection \<open>The varint codec\<close>

text \<open>
  C1. For every unsigned 64-bit \<open>x\<close>, \<open>encodeVarint\<close> returns a byte sequence (it
  never leaves its ten-byte array) of one to ten bytes, and \<open>binary.Uvarint\<close> on that
  sequence gives back \<open>x\<close> and the length of the sequence as the number of bytes read.
\<close>

theorem encodeVarint_Uvarint_roundtrip:
  "\<exists>bs. encodeVarint x = Some bs \<and> Uvarint bs = (x, int (length bs)) \<and>
        1 \<le> length bs \<and> length bs \<le> 10"
proof -
  have "Uvarint (varint x) = (x, int (length (varint x)))"
    using Uvarint_varint[of x "[]"] by simp
  then show ?thesis
    using encodeVarint_varint[of x] varint_length[of x] by simp
qed

subsection \<open>The packet framer\<close>

lemma makePacket_varint: "makePacket pl = Some (varint (of_nat (length pl)) @ pl)"
  by (simp add: makePacket_def encodeVarint_varint Write_def)

lemma varint_not_Nil: "varint x \<noteq> []"
  using varint_length[of x] by auto

text \<open>
  C4. For every payload \<open>p\<close>, \<open>makePacket p\<close> is the varint of the length of \<open>p\<close>
  followed by \<open>p\<close> itself, unchanged; and the header is the same for every payload
  of that length: the framer takes nothing from the payload but its length. (As a HOL
  function \<open>makePacket\<close> has no effect besides its result.)
\<close>

theorem makePacket_frames_payload:
  "\<exists>hdr. encodeVarint (of_nat (length p)) = Some hdr \<and>
         makePacket p = Some (hdr @ p) \<and>
         (\<forall>q. length q = length p \<longrightarrow> makePacket q = Some (hdr @ q))"
  by (simp add: makePacket_varint encodeVarint_varint)

theorem makePacket_frames_payload_witness:
  "encodeVarint (of_nat (length [0x01, 0x02, 0x03 :: byte])) = Some [0x03] \<and>
   makePacket [0x01, 0x02, 0x03] = Some ([0x03] @ [0x01, 0x02, 0x03]) \<and>
   length [0xFF, 0x00, 0x80 :: byte] = length [0x01, 0x02, 0x03 :: byte] \<and>
   makePacket [0xFF, 0x00, 0x80] = Some ([0x03] @ [0xFF, 0x00, 0x80])"
proof -
  have run: "encodeVarint (of_nat (length [0x01, 0x02, 0x03 :: byte])) = Some [0x03]"
    "makePacket [0x01, 0x02, 0x03] = Some ([0x03] @ [0x01, 0x02, 0x03])"
    "makePacket [0xFF, 0x00, 0x80] = Some ([0x03] @ [0xFF, 0x00, 0x80])"
    by code_simp+
  show ?thesis
    using makePacket_frames_payload[of "[0x01, 0x02, 0x03]"]
    by (simp only: run) simp
qed

subsection \<open>The handshake\<close>

lemma sendHandShake_split:
  assumes "SplitHostPort hostport = Inr (host, port)" and "Atoi port = Inr iPort"
  shows "sendHandShake conn hostport =
           (case WriteTo (varint (of_nat (length (handshake_payload host iPort))) @
                          handshake_payload host iPort) conn of
              (Some e, c') \<Rightarrow> (Err (errorString ''cannot write handshake''), c')
            | (None, c') \<Rightarrow> (Ok (), c'))"
  using assms
  by (simp add: sendHandShake_def makePacket_varint encodeVarint_varint handshake_payload_def
      WriteByte_def Write_def WriteString_def binary_Write_int16_def protocolVersion_def)

lemma WriteTo_sent:
  "pkt \<noteq> [] \<Longrightarrow> sent (snd (WriteTo pkt c)) =
     sent c @ (case wlimit c of None \<Rightarrow> pkt | Some k \<Rightarrow> take k pkt)"
  by (auto simp: WriteTo_def Conn_Write_def split: option.splits)

lemma WriteTo_unlimited:
  "pkt \<noteq> [] \<Longrightarrow> wlimit c = None \<Longrightarrow> WriteTo pkt c = (None, c\<lparr>sent := sent c @ pkt\<rparr>)"
  by (simp add: WriteTo_def Conn_Write_def)



lemma take_bit_sint16: "take_bit 16 (sint (w :: go_int)) = uint (ucast w :: 16 word)"
  by (rule bit_eqI) (auto simp add: bit_simps)

lemma int16_uint: "uint (int16 iPort) = sint iPort mod 65536"
proof -
  have "uint (int16 iPort) = sint iPort mod 2 ^ 16"
    unfolding int16_def by (simp only: take_bit_sint16[symmetric] take_bit_eq_mod)
  then show ?thesis by simp
qed

lemma port_hi_bits:
  "(ucast (drop_bit 8 (v :: 16 word)) :: byte) = word_of_int (drop_bit 8 (uint v))"
  by (rule bit_word_eqI) (auto simp add: bit_simps)

lemma port_lo_bits: "(ucast (v :: 16 word) :: byte) = word_of_int (take_bit 8 (uint v))"
  by (rule bit_word_eqI) (auto simp add: bit_simps)

lemma port_hi: "(ucast (drop_bit 8 (int16 iPort)) :: byte) = word_of_int (sint iPort mod 65536 div 256)"
proof -
  have "(ucast (drop_bit 8 (int16 iPort)) :: byte) = word_of_int (uint (int16 iPort) div 2 ^ 8)"
    unfolding port_hi_bits by (simp only: drop_bit_eq_div)
  then show ?thesis by (simp add: int16_uint)
qed

lemma port_lo: "(ucast (int16 iPort) :: byte) = word_of_int (sint iPort mod 256)"
proof -
  have "(ucast (int16 iPort) :: byte) = word_of_int (uint (int16 iPort) mod 2 ^ 8)"
    by (simp only: port_lo_bits take_bit_eq_mod)
  also have "uint (int16 iPort) mod 2 ^ 8 = sint iPort mod 256"
    by (simp add: int16_uint mod_mod_cancel)
  finally show ?thesis .
qed

lemma int16_negative:
  assumes "32768 \<le> sint iPort mod 65536"
  shows "sint (int16 iPort) = sint iPort mod 65536 - 65536"
proof -
  define m where "m = sint iPort mod 65536"
  have m: "32768 \<le> m" "m < 65536"
    using assms by (simp_all add: m_def)
  have "sint (int16 iPort) = signed_take_bit 15 (uint (int16 iPort))"
    by (simp add: sint_uint)
  also have "\<dots> = signed_take_bit 15 m"
    by (simp only: int16_uint m_def)
  also have "\<dots> = (m + 32768) mod 65536 - 32768"
    by (simp add: signed_take_bit_eq_take_bit_shift take_bit_eq_mod)
  also have "\<dots> = m - 65536"
  proof -
    have "m + 32768 = m - 32768 + 65536" by simp
    then have "(m + 32768) mod 65536 = (m - 32768 + 65536) mod 65536" by (rule arg_cong)
    also have "\<dots> = (m - 32768) mod 65536" by (simp only: mod_add_self2)
    also have "\<dots> = m - 32768" using m by (intro mod_pos_pos_trivial) simp_all
    finally show ?thesis by simp
  qed
  finally show ?thesis by (simp only: m_def)
qed

lemma split_localhost: "SplitHostPort ''localhost:25565'' = Inr (''localhost'', ''25565'')"
  by code_simp

lemma atoi_25565: "Atoi ''25565'' = Inr 25565"
  by code_simp

lemma split_no_port: "SplitHostPort ''localhost'' = Inl (AddrError ''missing port in address'' ''localhost'')"
  by code_simp

lemma split_named_port: "SplitHostPort ''localhost:http'' = Inr (''localhost'', ''http'')"
  by code_simp

lemma atoi_http: "Atoi ''http'' = Inl (NumError ''Atoi'' ''http'' ErrSyntax)"
  by code_simp

lemma varint_small: "\<not> 127 < x \<Longrightarrow> varint x = [ucast x]"
  by (subst varint.simps) simp

lemma handshake_payload_bytes:
  "handshake_payload host iPort =
     [0x00] @ [0x2F] @ varint (of_nat (length host)) @ map of_char host @
     [word_of_int (sint iPort mod 65536 div 256), word_of_int (sint iPort mod 256)] @ [0x01]"
  by (simp add: handshake_payload_def port_hi port_lo)

text \<open>
  C2. When \<open>SplitHostPort\<close> gives the host and the port, and \<open>Atoi\<close> the port number,
  the bytes that \<open>sendHandShake\<close> hands to the connection are: the varint of the
  payload's length, then the payload, which is the packet id \<open>0x00\<close> (the varint of
  0), the protocol version byte \<open>0x2F\<close>, the varint of the host's length, the host's
  bytes, the two bytes of the port modulo \<open>2^16\<close>, high byte first, and the next-state
  byte \<open>0x01\<close>. The varints are those of the specification (\<open>varint\<close>), not whatever
  \<open>encodeVarint\<close> returns. A connection that accepts only \<open>k\<close> more bytes gets the
  first \<open>k\<close> of them, and the call then returns the error \<open>cannot write handshake\<close>.
\<close>

theorem sendHandShake_wire_format:
  assumes "SplitHostPort hostport = Inr (host, port)" and "Atoi port = Inr iPort"
  shows "let payload = [0x00] @ [0x2F] @ varint (of_nat (length host)) @ map of_char host @
                       [word_of_int (sint iPort mod 65536 div 256),
                        word_of_int (sint iPort mod 256)] @ [0x01];
             packet = varint (of_nat (length payload)) @ payload
         in varint 0 = [0x00] \<and>
            sent (snd (sendHandShake conn hostport)) =
              sent conn @ (case wlimit conn of None \<Rightarrow> packet | Some k \<Rightarrow> take k packet) \<and>
            fst (sendHandShake conn hostport) =
              (if (case wlimit conn of None \<Rightarrow> True | Some k \<Rightarrow> length packet \<le> k)
               then Ok () else Err (errorString ''cannot write handshake''))"
proof -
  let ?payload = "handshake_payload host iPort"
  let ?packet = "varint (of_nat (length ?payload)) @ ?payload"
  have pid: "varint 0 = [0x00]" by (simp add: varint_small)
  have ne: "?packet \<noteq> []" by (simp add: varint_not_Nil)
  have s: "sendHandShake conn hostport =
           (case WriteTo ?packet conn of
              (Some e, c') \<Rightarrow> (Err (errorString ''cannot write handshake''), c')
            | (None, c') \<Rightarrow> (Ok (), c'))"
    by (rule sendHandShake_split[OF assms])
  have sent: "sent (snd (sendHandShake conn hostport)) =
        sent conn @ (case wlimit conn of None \<Rightarrow> ?packet | Some k \<Rightarrow> take k ?packet)"
    unfolding s using WriteTo_sent[OF ne, of conn] by (auto split: prod.splits option.splits)
  have res: "fst (sendHandShake conn hostport) =
        (if (case wlimit conn of None \<Rightarrow> True | Some k \<Rightarrow> length ?packet \<le> k)
         then Ok () else Err (errorString ''cannot write handshake''))"
    unfolding s using ne by (auto simp: WriteTo_def Conn_Write_def split: option.splits)
  show ?thesis
    unfolding Let_def handshake_payload_bytes[symmetric]
    using pid sent res by blast
qed

lemma split_long_host:
  "SplitHostPort (replicate 128 (CHR ''a'') @ '':25565'') = Inr (replicate 128 (CHR ''a''), ''25565'')"
  by code_simp

lemma varint_128: "varint 128 = [0x80, 0x01]"
proof -
  have "encodeVarint 128 = Some [0x80, 0x01]" by code_simp
  then show ?thesis by (simp add: encodeVarint_varint)
qed

lemma varint_135: "varint 135 = [0x87, 0x01]"
proof -
  have "encodeVarint 135 = Some [0x87, 0x01]" by code_simp
  then show ?thesis by (simp add: encodeVarint_varint)
qed

lemma varint_9: "varint 9 = [0x09]" by (simp add: varint_small)
lemma varint_15: "varint 15 = [0x0F]" by (simp add: varint_small)

theorem sendHandShake_wire_format_witness:
  "SplitHostPort ''localhost:25565'' = Inr (''localhost'', ''25565'') \<and>
   Atoi ''25565'' = Inr 25565 \<and>
   sent (snd (sendHandShake (newConn []) ''localhost:25565'')) =
     [15, 0x00, 0x2F, 9, 108, 111, 99, 97, 108, 104, 111, 115, 116, 0x63, 0xDD, 0x01] \<and>
   fst (sendHandShake (newConn []) ''localhost:25565'') = Ok () \<and>
   SplitHostPort (replicate 128 (CHR ''a'') @ '':25565'') =
     Inr (replicate 128 (CHR ''a''), ''25565'') \<and>
   sent (snd (sendHandShake (newConn []) (replicate 128 (CHR ''a'') @ '':25565''))) =
     [0x87, 0x01] @ [0x00, 0x2F] @ [0x80, 0x01] @ replicate 128 0x61 @ [0x63, 0xDD, 0x01]"
proof -
  have w: "wlimit (newConn []) = None" "sent (newConn []) = []"
    by (simp_all add: newConn_def)
  have a: "(of_char (CHR ''a'') :: byte) = 0x61" by simp
  show ?thesis
    using sendHandShake_wire_format[OF split_localhost atoi_25565, of "newConn []"]
      sendHandShake_wire_format[OF split_long_host atoi_25565, of "newConn []"]
      split_localhost atoi_25565 split_long_host
    by (simp add: Let_def w varint_128 varint_135 varint_9 varint_15 a)
qed

text \<open>
  The two panics of \<open>sendHandShake\<close>: when \<open>SplitHostPort\<close> fails on the address, or
  \<open>Atoi\<close> on the port, the function panics with that error and leaves the connection as
  it was. \<open>Ping\<close>, its only caller, does not reach them, as shown below.
\<close>

lemma sendHandShake_panic_paths:
  "(SplitHostPort hostport = Inl e \<longrightarrow> sendHandShake conn hostport = (Panic e, conn)) \<and>
   (SplitHostPort hostport = Inr (host, port) \<and> Atoi port = Inl e \<longrightarrow>
      sendHandShake conn hostport = (Panic e, conn))"
  by (simp add: sendHandShake_def encodeVarint_varint)

subsection \<open>Addresses that do not split, ports that do not parse\<close>

text \<open>The decimal digits that \<open>FormatInt\<close> writes are read back by \<open>Atoi\<close>.\<close>

lemma less_10_cases:
  "d < 10 \<Longrightarrow> d = 0 \<or> d = 1 \<or> d = 2 \<or> d = 3 \<or> d = 4 \<or> d = 5 \<or> d = 6 \<or> d = 7 \<or> d = 8 \<or> d = (9::nat)"
  by arith

lemma digit_int: "d < 10 \<Longrightarrow> (of_char (digits ! d) :: int) = 48 + int d"
  by (drule less_10_cases) (auto simp: digits_def)

lemma digit_byte: "d < 10 \<Longrightarrow> (of_char (digits ! d) :: byte) - 0x30 = of_nat d"
  by (drule less_10_cases) (auto simp: digits_def)

lemma digit_byte_le: "d < 10 \<Longrightarrow> \<not> 9 < (of_nat d :: byte)"
  by (drule less_10_cases) auto

lemma digit_byte_ucast: "d < 10 \<Longrightarrow> (ucast (of_nat d :: byte) :: go_int) = of_nat d"
  by (drule less_10_cases) auto

lemma digit_not_special:
  "d < 10 \<Longrightarrow> digits ! d \<noteq> CHR ''-'' \<and> digits ! d \<noteq> CHR ''+'' \<and> digits ! d \<noteq> CHR '':''"
  by (drule less_10_cases) (auto simp: digits_def)

lemma FormatUint_not_Nil: "FormatUint n \<noteq> []"
  by (subst FormatUint.simps) simp

lemma FormatUint_chars:
  "c \<in> set (FormatUint n) \<Longrightarrow> c \<noteq> CHR ''-'' \<and> c \<noteq> CHR ''+'' \<and> c \<noteq> CHR '':''"
proof (induction n rule: FormatUint.induct)
  case (1 n)
  show ?case
  proof (cases "n < 10")
    case True
    with "1.prems" have "c = digits ! n" by (subst (asm) FormatUint.simps) simp
    with True show ?thesis using digit_not_special[of n] by simp
  next
    case False
    with "1.prems" have "c \<in> set (FormatUint (n div 10)) \<or> c = digits ! (n mod 10)"
      by (subst (asm) FormatUint.simps) auto
    with False "1.IH" show ?thesis using digit_not_special[of "n mod 10"] by auto
  qed
qed

lemma FormatUint_hd:
  "hd (FormatUint n) \<noteq> CHR ''-'' \<and> hd (FormatUint n) \<noteq> CHR ''+''"
  using FormatUint_chars[of "hd (FormatUint n)" n] FormatUint_not_Nil[of n] by simp

lemma Atoi_digits_append:
  "Atoi_digits n (xs @ [c]) =
     (case Atoi_digits n xs of
        None \<Rightarrow> None
      | Some v \<Rightarrow> (let ch = (of_char c :: byte) - 0x30 in
                  if 9 < ch then None else Some (v * 10 + ucast ch)))"
  by (induction xs arbitrary: n) (simp_all add: Let_def)

lemma Atoi_digits_FormatUint: "Atoi_digits 0 (FormatUint n) = Some (of_nat n)"
proof (induction n rule: FormatUint.induct)
  case (1 n)
  show ?case
  proof (cases "n < 10")
    case True
    then show ?thesis
      by (subst FormatUint.simps) (simp add: digit_byte digit_byte_le digit_byte_ucast)
  next
    case False
    have d: "n mod 10 < 10" by simp
    have "(of_nat (n div 10) * 10 + of_nat (n mod 10) :: go_int) = of_nat (n div 10 * 10 + n mod 10)"
      by (simp only: of_nat_add of_nat_mult of_nat_numeral)
    then have v: "(of_nat (n div 10) * 10 + of_nat (n mod 10) :: go_int) = of_nat n" by simp
    from False "1.IH" show ?thesis
      by (subst FormatUint.simps)
         (simp add: Atoi_digits_append digit_byte[OF d] digit_byte_le[OF d] digit_byte_ucast[OF d] v)
  qed
qed

lemma ParseUint_loop_append:
  "ParseUint_loop n (xs @ [c]) =
     (case ParseUint_loop n xs of
        Inl e \<Rightarrow> Inl e
      | Inr v \<Rightarrow> ParseUint_loop v [c])"
  by (induction xs arbitrary: n) (simp_all add: Let_def)

lemma ParseUint_step:
  assumes "d < 10" and "0 \<le> v" and "v * 10 + int d < 18446744073709551616"
  shows "ParseUint_loop v [digits ! d] = Inr (v * 10 + int d)"
proof -
  have p: "(2::int) ^ 64 = 18446744073709551616" by simp
  have c1: "\<not> (18446744073709551616 div 10 + 1 \<le> v)" using assms by simp
  have c2: "\<not> (18446744073709551616 - 1 < v * 10 + int d)" using assms by simp
  have dg: "48 \<le> (48 + int d)" "48 + int d \<le> 57" using assms(1) by simp_all
  show ?thesis
    unfolding ParseUint_loop.simps Let_def digit_int[OF assms(1)] p
    using c1 c2 dg by simp
qed

lemma ParseUint_loop_FormatUint:
  "n < 18446744073709551616 \<Longrightarrow> ParseUint_loop 0 (FormatUint n) = Inr (int n)"
proof (induction n rule: FormatUint.induct)
  case (1 n)
  show ?case
  proof (cases "n < 10")
    case True
    have "ParseUint_loop 0 [digits ! n] = Inr (0 * 10 + int n)"
      using True by (intro ParseUint_step) simp_all
    with True show ?thesis
      by (subst FormatUint.simps) simp
  next
    case False
    have d: "n mod 10 < 10" by simp
    from "1.prems" have small: "n div 10 < 18446744073709551616"
      by (rule le_less_trans[OF div_le_dividend])
    have "int (n div 10 * 10 + n mod 10) = int n" by simp
    then have n: "int (n div 10) * 10 + int (n mod 10) = int n"
      by (simp only: of_nat_add of_nat_mult of_nat_numeral)
    have lt: "int (n div 10) * 10 + int (n mod 10) < 18446744073709551616"
      using "1.prems" by (simp only: n)
    have "ParseUint_loop (int (n div 10)) [digits ! (n mod 10)] =
            Inr (int (n div 10) * 10 + int (n mod 10))"
      by (rule ParseUint_step[OF d _ lt]) simp
    then have step: "ParseUint_loop (int (n div 10)) [digits ! (n mod 10)] = Inr (int n)"
      by (simp only: n)
    from False "1.IH"[OF False small] step show ?thesis
      by (subst FormatUint.simps) (simp add: ParseUint_loop_append)
  qed
qed

lemma sint_bounds: "- 9223372036854775808 \<le> sint (p :: go_int) \<and> sint p < 9223372036854775808"
  using sint_ge[of p] sint_lt[of p] by simp

lemma Atoi_unsigned:
  assumes "n < 9223372036854775808"
  shows "Atoi (FormatUint n) = Inr (of_nat n)"
proof -
  let ?s = "FormatUint n"
  have ne: "?s \<noteq> []" by (rule FormatUint_not_Nil)
  have hd: "hd ?s \<noteq> CHR ''-''" "hd ?s \<noteq> CHR ''+''" using FormatUint_hd[of n] by simp_all
  have pu: "ParseUint_loop 0 ?s = Inr (int n)"
    using assms by (intro ParseUint_loop_FormatUint) simp
  have r: "\<not> 9223372036854775808 \<le> int n" using assms by simp
  show ?thesis
  proof (cases "length ?s < 19")
    case True
    with ne hd show ?thesis
      by (simp add: Atoi_def Atoi_digits_FormatUint)
  next
    case False
    with ne hd pu r show ?thesis
      by (simp add: Atoi_def ParseInt_def ParseUint_def)
  qed
qed

lemma Atoi_negative:
  assumes "0 < n" and "n \<le> 9223372036854775808"
  shows "Atoi (CHR ''-'' # FormatUint n) = Inr (- of_nat n)"
proof -
  let ?s = "FormatUint n"
  have ne: "?s \<noteq> []" by (rule FormatUint_not_Nil)
  then have len: "\<not> length ?s < 1" by (cases ?s) simp_all
  have pu: "ParseUint_loop 0 ?s = Inr (int n)"
    using assms by (intro ParseUint_loop_FormatUint) simp
  have r: "\<not> 9223372036854775808 < int n" using assms by simp
  show ?thesis
  proof (cases "length (CHR ''-'' # ?s) < 19")
    case True
    with ne len show ?thesis
      by (simp add: Atoi_def Atoi_digits_FormatUint)
  next
    case False
    with ne pu r show ?thesis
      by (simp add: Atoi_def ParseInt_def ParseUint_def)
  qed
qed

lemma Atoi_FormatInt: "Atoi (FormatInt p) = Inr p"
proof (cases "sint p < 0")
  case True
  let ?n = "nat (- sint p)"
  have "0 < ?n" "?n \<le> 9223372036854775808"
    using True sint_bounds[of p] by simp_all
  then have "Atoi (CHR ''-'' # FormatUint ?n) = Inr (- of_nat ?n)"
    by (rule Atoi_negative)
  moreover have "(of_nat ?n :: go_int) = - p"
    using True by simp
  ultimately show ?thesis using True by (simp add: FormatInt_def)
next
  case False
  let ?n = "nat (sint p)"
  have "?n < 9223372036854775808"
    using False sint_bounds[of p] by simp
  then have "Atoi (FormatUint ?n) = Inr (of_nat ?n)"
    by (rule Atoi_unsigned)
  moreover have "(of_nat ?n :: go_int) = p"
    using False by simp
  ultimately show ?thesis using False by (simp add: FormatInt_def)
qed

lemma FormatInt_no_colon: "CHR '':'' \<notin> set (FormatInt p)"
  using FormatUint_chars[of "CHR '':''"] by (auto simp: FormatInt_def)

lemma IndexByteString_first:
  "c \<notin> set xs \<Longrightarrow> IndexByteString (xs @ c # ys) c = Some (length xs)"
  by (induction xs) auto

lemma LastIndexByteString_last:
  "c \<notin> set f \<Longrightarrow> LastIndexByteString (a @ c # f) c = Some (length a)"
  using IndexByteString_first[of c "rev f" "rev a"]
  by (simp add: LastIndexByteString_def)

lemma SplitHostPort_port:
  assumes "CHR '':'' \<notin> set f" and "SplitHostPort (a @ '':'' @ f) = Inr (h, p)"
  shows "p = f"
proof -
  have i: "LastIndexByteString (a @ CHR '':'' # f) (CHR '':'') = Some (length a)"
    using assms(1) by (rule LastIndexByteString_last)
  from assms(2) show ?thesis
    by (auto simp: SplitHostPort_def SplitHostPort_tail_def i Let_def
        split: if_splits option.splits)
qed

lemma sendHandShake_no_panic:
  assumes "SplitHostPort hostport = Inr (host, port)" and "Atoi port = Inr iPort"
  shows "\<not> is_Panic (fst (sendHandShake conn hostport))"
  unfolding sendHandShake_split[OF assms]
  by (simp split: prod.splits option.splits)

text \<open>
  C5. \<open>Ping\<close> writes the address as \<open>host:port\<close>, the port in decimal, and dials it
  before the handshake. \<open>net.DialTimeout\<close> splits the address itself and refuses one
  that does not split: this is the hypothesis on the environment. Then for an address
  that does not split, \<open>Ping\<close> returns an error and has opened no connection, so
  nothing has been written; the port that \<open>SplitHostPort\<close> finds in an address that
  does split is the decimal that \<open>Ping\<close> wrote, and \<open>Atoi\<close> parses it; and on the
  connection that the dial returned, \<open>sendHandShake\<close> does not panic.
\<close>

theorem Ping_bad_address_is_an_error:
  assumes "isl (SplitHostPort (address @ '':'' @ FormatInt port)) \<longrightarrow>
           isl (DialTimeout E (address @ '':'' @ FormatInt port))"
  shows "(isl (SplitHostPort (address @ '':'' @ FormatInt port)) \<longrightarrow>
            is_Err (fst (Ping E address port)) \<and> snd (Ping E address port) = None) \<and>
         (SplitHostPort (address @ '':'' @ FormatInt port) = Inr (h, p) \<longrightarrow> Atoi p = Inr port) \<and>
         (DialTimeout E (address @ '':'' @ FormatInt port) = Inr conn \<longrightarrow>
            \<not> is_Panic (fst (sendHandShake conn (address @ '':'' @ FormatInt port))))"
proof -
  let ?host = "address @ '':'' @ FormatInt port"
  have port: "Atoi p' = Inr port" if "SplitHostPort ?host = Inr (h', p')" for h' p'
  proof -
    have "p' = FormatInt port"
      using FormatInt_no_colon that by (rule SplitHostPort_port)
    then show ?thesis by (simp add: Atoi_FormatInt)
  qed
  have bad: "is_Err (fst (Ping E address port)) \<and> snd (Ping E address port) = None"
    if "isl (SplitHostPort ?host)"
  proof -
    from that assms have "isl (DialTimeout E ?host)" by simp
    then obtain err where "DialTimeout E ?host = Inl err"
      by (cases "DialTimeout E ?host") simp_all
    then show ?thesis by (simp add: Ping_def)
  qed
  have reach: "\<not> is_Panic (fst (sendHandShake conn ?host))"
    if "DialTimeout E ?host = Inr conn"
  proof (cases "SplitHostPort ?host")
    case (Inl e)
    with assms that show ?thesis by simp
  next
    case (Inr hp)
    obtain h' p' where hp: "hp = (h', p')" by (cases hp)
    show ?thesis
      using sendHandShake_no_panic[OF Inr[unfolded hp] port[OF Inr[unfolded hp]]] .
  qed
  from port bad reach show ?thesis by blast
qed

lemma split_ipv6: "SplitHostPort ''::1:25565'' = Inl (AddrError ''too many colons in address'' ''::1:25565'')"
  by code_simp

theorem Ping_bad_address_is_an_error_witness:
  "isl (SplitHostPort (''::1'' @ '':'' @ FormatInt 25565)) \<and>
   isl (DialTimeout (checkedEnv []) (''::1'' @ '':'' @ FormatInt 25565)) \<and>
   Ping (checkedEnv []) ''::1'' 25565 = (Err (OpError ''dial''), None) \<and>
   SplitHostPort (''localhost'' @ '':'' @ FormatInt 25565) = Inr (''localhost'', ''25565'') \<and>
   Atoi ''25565'' = Inr 25565 \<and>
   DialTimeout (checkedEnv []) (''localhost'' @ '':'' @ FormatInt 25565) = Inr (newConn []) \<and>
   \<not> is_Panic (fst (sendHandShake (newConn []) (''localhost'' @ '':'' @ FormatInt 25565)))"
proof -
  have f: "FormatInt 25565 = ''25565''"
    by (simp add: FormatInt_def FormatUint.simps digits_def)
  have s1: "isl (SplitHostPort (''::1'' @ '':'' @ FormatInt 25565))"
    unfolding f using split_ipv6 by simp
  have d1: "isl (DialTimeout (checkedEnv []) (''::1'' @ '':'' @ FormatInt 25565))"
    unfolding f using split_ipv6 by (simp add: checkedEnv_def DialTimeout_checked_def)
  have h1: "isl (SplitHostPort (''::1'' @ '':'' @ FormatInt 25565)) \<longrightarrow>
            isl (DialTimeout (checkedEnv []) (''::1'' @ '':'' @ FormatInt 25565))"
    using d1 by simp
  have p1: "Ping (checkedEnv []) ''::1'' 25565 = (Err (OpError ''dial''), None)"
    using split_ipv6 by (simp add: Ping_def f checkedEnv_def DialTimeout_checked_def)
  have s2: "SplitHostPort (''localhost'' @ '':'' @ FormatInt 25565) = Inr (''localhost'', ''25565'')"
    unfolding f using split_localhost by simp
  have d2: "DialTimeout (checkedEnv []) (''localhost'' @ '':'' @ FormatInt 25565) = Inr (newConn [])"
    unfolding f using split_localhost by (simp add: checkedEnv_def DialTimeout_checked_def)
  have h2: "isl (SplitHostPort (''localhost'' @ '':'' @ FormatInt 25565)) \<longrightarrow>
            isl (DialTimeout (checkedEnv []) (''localhost'' @ '':'' @ FormatInt 25565))"
    using s2 by simp
  show ?thesis
    using Ping_bad_address_is_an_error[OF h1, of "''''" "''''" "newConn []"]
      Ping_bad_address_is_an_error[OF h2, of "''localhost''" "''25565''" "newConn []"]
      s1 d1 p1 s2 d2 atoi_25565
    by simp
qed

subsection \<open>The port on the wire\<close>

lemma split_40000: "SplitHostPort ''localhost:40000'' = Inr (''localhost'', ''40000'')"
  by code_simp

lemma atoi_40000: "Atoi ''40000'' = Inr 40000"
  by code_simp

text \<open>
  C10. The handshake ends with the two port bytes and the next-state byte. The port
  bytes are those of the port modulo \<open>2^16\<close>, high byte first: the conversion
  \<open>int16(iPort)\<close> keeps the low 16 bits, so a port of \<open>2^16\<close> or more is truncated,
  and a port whose low 16 bits are \<open>32768\<close> or more becomes a negative \<open>int16\<close>, with
  the same two bytes on the wire.
\<close>

theorem handshake_port_bytes:
  assumes "SplitHostPort hostport = Inr (host, port)" and "Atoi port = Inr iPort"
    and "wlimit conn = None"
  shows "(\<exists>pre. sent (snd (sendHandShake conn hostport)) =
            sent conn @ pre @ [word_of_int (sint iPort mod 65536 div 256),
                               word_of_int (sint iPort mod 256), 0x01]) \<and>
         uint (int16 iPort) = sint iPort mod 65536 \<and>
         (32768 \<le> sint iPort mod 65536 \<longrightarrow>
            sint (int16 iPort) = sint iPort mod 65536 - 65536)"
proof -
  let ?payload = "handshake_payload host iPort"
  let ?len = "varint (of_nat (length ?payload))"
  have ne: "?len @ ?payload \<noteq> []" by (simp add: varint_not_Nil)
  have "sendHandShake conn hostport = (Ok (), conn\<lparr>sent := sent conn @ ?len @ ?payload\<rparr>)"
    unfolding sendHandShake_split[OF assms(1,2)] WriteTo_unlimited[OF ne assms(3)] by simp
  then have "sent (snd (sendHandShake conn hostport)) =
      sent conn @ (?len @ [0x00] @ [0x2F] @ varint (of_nat (length host)) @ map of_char host) @
        [word_of_int (sint iPort mod 65536 div 256), word_of_int (sint iPort mod 256), 0x01]"
    by (simp add: handshake_payload_def port_hi port_lo)
  then have "\<exists>pre. sent (snd (sendHandShake conn hostport)) =
            sent conn @ pre @ [word_of_int (sint iPort mod 65536 div 256),
                               word_of_int (sint iPort mod 256), 0x01]"
    by (rule exI)
  then show ?thesis
    using int16_uint[of iPort] int16_negative[of iPort] by simp
qed

theorem handshake_port_bytes_witness:
  "SplitHostPort ''localhost:40000'' = Inr (''localhost'', ''40000'') \<and>
   Atoi ''40000'' = Inr 40000 \<and>
   wlimit (newConn []) = None \<and>
   sent (snd (sendHandShake (newConn []) ''localhost:40000'')) =
     [15, 0x00, 0x2F, 9, 108, 111, 99, 97, 108, 104, 111, 115, 116] @ [0x9C, 0x40, 0x01] \<and>
   uint (int16 40000) = 40000 \<and>
   sint (int16 40000) = - 25536 \<and>
   sent (snd (sendHandShake (newConn []) ''localhost:91101'')) =
     [15, 0x00, 0x2F, 9, 108, 111, 99, 97, 108, 104, 111, 115, 116] @ [0x63, 0xDD, 0x01]"
proof -
  have w: "wlimit (newConn []) = None" by (simp add: newConn_def)
  have run: "sent (snd (sendHandShake (newConn []) ''localhost:40000'')) =
     [15, 0x00, 0x2F, 9, 108, 111, 99, 97, 108, 104, 111, 115, 116] @ [0x9C, 0x40, 0x01]"
    "sent (snd (sendHandShake (newConn []) ''localhost:91101'')) =
     [15, 0x00, 0x2F, 9, 108, 111, 99, 97, 108, 104, 111, 115, 116] @ [0x63, 0xDD, 0x01]"
    by code_simp+
  have v: "uint (int16 40000) = 40000" "sint (int16 40000) = - 25536"
    by (simp_all add: int16_def)
  show ?thesis
    using handshake_port_bytes[OF split_40000 atoi_40000 w]
    by (simp only: run split_40000 atoi_40000 w v)
qed

subsection \<open>The status response\<close>

lemma wf_4: "wellformed_varint [0x04] 4" by code_simp
lemma wf_0: "wellformed_varint [0x00] 0" by code_simp
lemma wf_2: "wellformed_varint [0x02] 2" by code_simp
lemma wf_100: "wellformed_varint [0x64] 100" by code_simp
lemma wf_3: "wellformed_varint [0x03] 3" by code_simp
lemma wf_1: "wellformed_varint [0x01] 1" by code_simp

lemma unmarshal_braces: "Unmarshal (testEnv bs) [0x7B, 0x7D] = Inr emptyResponse"
  by (simp add: testEnv_def Unmarshal_empty_object_def)

lemma unmarshal_open_brace:
  "Unmarshal (testEnv bs) [0x7B] = Inl (SyntaxError ''invalid character'')"
  by (simp add: testEnv_def Unmarshal_empty_object_def)

lemma maxAlloc_testEnv: "maxAlloc (testEnv bs) = 2 ^ 48"
  by (simp add: testEnv_def)

text \<open>
  C3. Take a stream that starts with a well-formed varint of \<open>N\<close>, followed by \<open>N\<close>
  bytes of payload (\<open>N\<close> no more than \<open>make\<close> can allocate) and by anything else.
  When the payload is a well-formed varint (the packet id), another well-formed varint
  (the declared string length \<open>M\<close>) and a document \<open>js\<close> that \<open>json.Unmarshal\<close>
  accepts with the result \<open>res\<close>, \<open>readPong\<close> returns \<open>res\<close>: it passes the two
  varints by and hands exactly \<open>js\<close> to \<open>json.Unmarshal\<close>.
\<close>

theorem readPong_decodes_wellformed_stream:
  assumes "wellformed_varint hdr N" and "unat N = length (v1 @ v2 @ js)"
    and "unat N \<le> maxAlloc E"
    and "wellformed_varint v1 pid" and "wellformed_varint v2 M"
    and "Unmarshal E js = Inr res"
  shows "readPong E (hdr @ (v1 @ v2 @ js) @ extra) = Ok res"
  using readPong_wellformed[OF assms(4,5,1,2,3), of extra] assms(6) by simp

theorem readPong_decodes_wellformed_stream_witness:
  "wellformed_varint [0x04] 4 \<and> unat (4 :: uint64) = length ([0x00] @ [0x02] @ [0x7B, 0x7D :: byte]) \<and>
   unat (4 :: uint64) \<le> maxAlloc (testEnv []) \<and>
   wellformed_varint [0x00] 0 \<and> wellformed_varint [0x02] 2 \<and>
   Unmarshal (testEnv []) [0x7B, 0x7D] = Inr emptyResponse \<and>
   readPong (testEnv []) [0x04, 0x00, 0x02, 0x7B, 0x7D] = Ok emptyResponse"
proof -
  have a: "unat (4 :: uint64) = length ([0x00] @ [0x02] @ [0x7B, 0x7D :: byte])" by simp
  have b: "unat (4 :: uint64) \<le> maxAlloc (testEnv [])" by (simp add: maxAlloc_testEnv)
  show ?thesis
    using readPong_decodes_wellformed_stream[OF wf_4 a b wf_0 wf_2 unmarshal_braces, of "[]"]
      wf_4 a b wf_0 wf_2 unmarshal_braces[of "[]"]
    by simp
qed

text \<open>
  C9. For a packet made by \<open>makePacket\<close> from a well-formed packet id, a well-formed
  varint of any value \<open>M\<close> and bytes \<open>js\<close>, the result of \<open>readPong\<close> is decided by
  \<open>json.Unmarshal\<close> on \<open>js\<close> alone: \<open>M\<close> does not occur in it. In particular the
  decoding succeeds when \<open>M\<close> is not the length of \<open>js\<close>.
\<close>

theorem readPong_ignores_declared_length:
  assumes "wellformed_varint v1 pid" and "wellformed_varint v2 M"
    and "makePacket (v1 @ v2 @ js) = Some pkt"
    and "length (v1 @ v2 @ js) < 2 ^ 64" and "length (v1 @ v2 @ js) \<le> maxAlloc E"
  shows "readPong E (pkt @ extra) =
           (case Unmarshal E js of
              Inl err \<Rightarrow> Err (errorString ''could not read pong json'')
            | Inr res \<Rightarrow> Ok res) \<and>
         (Unmarshal E js = Inr res \<and> unat M \<noteq> length js \<longrightarrow> readPong E (pkt @ extra) = Ok res)"
proof -
  let ?pl = "v1 @ v2 @ js"
  let ?N = "of_nat (length ?pl) :: uint64"
  have pkt: "pkt = varint ?N @ ?pl"
    using assms(3) by (simp add: makePacket_varint)
  have hdr: "wellformed_varint (varint ?N) ?N"
    by (rule wellformed_varint_encode) (rule encodeVarint_varint)
  have len: "unat ?N = length ?pl"
    using assms(4) by (simp only: unat_of_nat) simp
  have alloc: "unat ?N \<le> maxAlloc E"
    using assms(5) by (simp only: len)
  have "readPong E (varint ?N @ ?pl @ extra) =
           (case Unmarshal E js of
              Inl err \<Rightarrow> Err (errorString ''could not read pong json'')
            | Inr res \<Rightarrow> Ok res)"
    by (rule readPong_wellformed[OF assms(1,2) hdr len alloc])
  then show ?thesis by (simp add: pkt)
qed

theorem readPong_ignores_declared_length_witness:
  "wellformed_varint [0x00] 0 \<and> wellformed_varint [0x64] 100 \<and>
   makePacket ([0x00] @ [0x64] @ [0x7B, 0x7D]) = Some [0x04, 0x00, 0x64, 0x7B, 0x7D] \<and>
   length ([0x00] @ [0x64] @ [0x7B, 0x7D :: byte]) < 2 ^ 64 \<and>
   length ([0x00] @ [0x64] @ [0x7B, 0x7D :: byte]) \<le> maxAlloc (testEnv []) \<and>
   Unmarshal (testEnv []) [0x7B, 0x7D] = Inr emptyResponse \<and>
   unat (100 :: uint64) \<noteq> length [0x7B, 0x7D :: byte] \<and>
   readPong (testEnv []) ([0x04, 0x00, 0x64, 0x7B, 0x7D] @ []) = Ok emptyResponse"
proof -
  have mk: "makePacket ([0x00] @ [0x64] @ [0x7B, 0x7D]) = Some [0x04, 0x00, 0x64, 0x7B, 0x7D]"
    by code_simp
  have a: "length ([0x00] @ [0x64] @ [0x7B, 0x7D :: byte]) < 2 ^ 64" by simp
  have b: "length ([0x00] @ [0x64] @ [0x7B, 0x7D :: byte]) \<le> maxAlloc (testEnv [])"
    by (simp add: maxAlloc_testEnv)
  have c: "unat (100 :: uint64) \<noteq> length [0x7B, 0x7D :: byte]" by simp
  show ?thesis
    using readPong_ignores_declared_length[OF wf_0 wf_100 mk a b, of "[]" emptyResponse]
      wf_0 wf_100 mk a b c unmarshal_braces[of "[]"]
    by simp
qed

subsection \<open>Ping and a malformed body\<close>

lemma WriteTo_incoming: "WriteTo pkt c = (r, c') \<Longrightarrow> incoming c' = incoming c"
  by (auto simp: WriteTo_def Conn_Write_def split: option.splits prod.splits if_splits)

lemma sendHandShake_incoming: "incoming (snd (sendHandShake c hostport)) = incoming c"
  by (auto simp: sendHandShake_def Let_def dest: WriteTo_incoming
      split: sum.splits option.splits prod.splits)

lemma sendStatusRequest_incoming: "incoming (snd (sendStatusRequest c)) = incoming c"
  by (auto simp: sendStatusRequest_def Let_def dest: WriteTo_incoming
      split: sum.splits option.splits prod.splits)

lemma Ping_reaches_readPong:
  assumes "DialTimeout E (address @ '':'' @ FormatInt port) = Inr conn"
    and "fst (sendHandShake conn (address @ '':'' @ FormatInt port)) = Ok ()"
    and "fst (sendStatusRequest (snd (sendHandShake conn (address @ '':'' @ FormatInt port)))) = Ok ()"
  shows "fst (Ping E address port) = readPong E (incoming conn)"
proof -
  let ?host = "address @ '':'' @ FormatInt port"
  obtain c1 where hs: "sendHandShake conn ?host = (Ok (), c1)"
    using assms(2) by (cases "sendHandShake conn ?host") simp
  obtain c2 where sr: "sendStatusRequest c1 = (Ok (), c2)"
    using assms(3) hs by (cases "sendStatusRequest c1") simp
  have "incoming c1 = incoming conn"
    using sendHandShake_incoming[of conn ?host] hs by simp
  moreover have "incoming c2 = incoming c1"
    using sendStatusRequest_incoming[of c1] sr by simp
  ultimately show ?thesis
    using assms(1) hs sr by (simp add: Ping_def)
qed

text \<open>
  C8. For a stream framed as in C3 whose document \<open>json.Unmarshal\<close> rejects,
  \<open>readPong\<close> returns the error \<open>could not read pong json\<close>. \<open>Ping\<close>, once the dial,
  the handshake and the status request have succeeded on a connection that delivers
  this stream, returns the same error; an error result carries no response.
\<close>

theorem malformed_json_is_an_error:
  assumes "wellformed_varint hdr N" and "unat N = length (v1 @ v2 @ js)"
    and "unat N \<le> maxAlloc E"
    and "wellformed_varint v1 pid" and "wellformed_varint v2 M"
    and "Unmarshal E js = Inl err"
    and "DialTimeout E (address @ '':'' @ FormatInt port) = Inr conn"
    and "fst (sendHandShake conn (address @ '':'' @ FormatInt port)) = Ok ()"
    and "fst (sendStatusRequest (snd (sendHandShake conn (address @ '':'' @ FormatInt port)))) = Ok ()"
    and "incoming conn = hdr @ (v1 @ v2 @ js) @ extra"
  shows "readPong E (hdr @ (v1 @ v2 @ js) @ extra) = Err (errorString ''could not read pong json'') \<and>
         fst (Ping E address port) = Err (errorString ''could not read pong json'')"
proof -
  have r: "readPong E (hdr @ (v1 @ v2 @ js) @ extra) = Err (errorString ''could not read pong json'')"
    using readPong_wellformed[OF assms(4,5,1,2,3), of extra] assms(6) by simp
  have "fst (Ping E address port) = readPong E (incoming conn)"
    by (rule Ping_reaches_readPong[OF assms(7,8,9)])
  with r assms(10) show ?thesis by simp
qed

lemma dial_testEnv: "DialTimeout (testEnv bs) host = Inr (newConn bs)"
  by (simp add: testEnv_def)

lemma incoming_newConn: "incoming (newConn bs) = bs"
  by (simp add: newConn_def)

lemma handshake_localhost:
  "fst (sendHandShake (newConn bs) (''localhost'' @ '':'' @ FormatInt 25565)) = Ok ()"
proof -
  have "''localhost'' @ '':'' @ FormatInt 25565 = ''localhost:25565''"
    by (simp add: FormatInt_def FormatUint.simps digits_def)
  then show ?thesis
    using sendHandShake_split[OF split_localhost atoi_25565, of "newConn bs"]
    by (simp add: WriteTo_def Conn_Write_def newConn_def varint_not_Nil)
qed

lemma status_request_unlimited:
  "wlimit c = None \<Longrightarrow> fst (sendStatusRequest c) = Ok ()"
  by (simp add: sendStatusRequest_def makePacket_varint WriteTo_def Conn_Write_def
      WriteByte_def varint_not_Nil)

lemma WriteTo_wlimit_None: "wlimit c = None \<Longrightarrow> wlimit (snd (WriteTo pkt c)) = None"
  by (simp add: WriteTo_def Conn_Write_def)

lemma sendHandShake_wlimit_None:
  "wlimit c = None \<Longrightarrow> wlimit (snd (sendHandShake c hostport)) = None"
  by (auto simp: sendHandShake_def Let_def WriteTo_def Conn_Write_def
      split: sum.splits option.splits prod.splits)

lemma status_request_localhost:
  "fst (sendStatusRequest (snd (sendHandShake (newConn bs) (''localhost'' @ '':'' @ FormatInt 25565)))) = Ok ()"
  by (rule status_request_unlimited, rule sendHandShake_wlimit_None) (simp add: newConn_def)

theorem malformed_json_is_an_error_witness:
  "wellformed_varint [0x03] 3 \<and> unat (3 :: uint64) = length ([0x00] @ [0x01] @ [0x7B :: byte]) \<and>
   unat (3 :: uint64) \<le> maxAlloc (testEnv [0x03, 0x00, 0x01, 0x7B]) \<and>
   wellformed_varint [0x00] 0 \<and> wellformed_varint [0x01] 1 \<and>
   Unmarshal (testEnv [0x03, 0x00, 0x01, 0x7B]) [0x7B] = Inl (SyntaxError ''invalid character'') \<and>
   DialTimeout (testEnv [0x03, 0x00, 0x01, 0x7B]) (''localhost'' @ '':'' @ FormatInt 25565) =
     Inr (newConn [0x03, 0x00, 0x01, 0x7B]) \<and>
   readPong (testEnv [0x03, 0x00, 0x01, 0x7B]) [0x03, 0x00, 0x01, 0x7B] =
     Err (errorString ''could not read pong json'') \<and>
   fst (Ping (testEnv [0x03, 0x00, 0x01, 0x7B]) ''localhost'' 25565) =
     Err (errorString ''could not read pong json'')"
proof -
  let ?s = "[0x03, 0x00, 0x01, 0x7B] :: byte list"
  have a: "unat (3 :: uint64) = length ([0x00] @ [0x01] @ [0x7B :: byte])" by simp
  have b: "unat (3 :: uint64) \<le> maxAlloc (testEnv ?s)" by (simp add: maxAlloc_testEnv)
  have i: "incoming (newConn ?s) = [0x03] @ ([0x00] @ [0x01] @ [0x7B]) @ []"
    by (simp add: incoming_newConn)
  show ?thesis
    using malformed_json_is_an_error[OF wf_3 a b wf_0 wf_1 unmarshal_open_brace dial_testEnv
        handshake_localhost status_request_localhost i]
      wf_3 a b wf_0 wf_1 unmarshal_open_brace[of ?s] dial_testEnv[of ?s]
    by simp
qed

subsection \<open>The length header\<close>

text \<open>
  C6, as the code has it. \<open>readPong\<close> compares the decoded length with no bound of
  its own. For a length that \<open>make\<close> can allocate, it fails with the error
  \<open>could not read length given by length header\<close> exactly when fewer bytes follow
  the header than the header declares; the error is that of the short read.
\<close>

theorem readPong_length_header_unbounded:
  assumes "ReadUvarint rd = (Inr nl, r)" and "unat nl \<le> maxAlloc E"
  shows "(readPong E rd = Err (errorString ''could not read length given by length header''))
         = (length r < unat nl)"
proof (cases "length r < unat nl")
  case True
  then show ?thesis
    using assms by (simp add: readPong_def ReadFull_def)
next
  case False
  have ne: "errorString ''could not read packet id'' \<noteq>
              errorString ''could not read length given by length header''"
    "errorString ''could not read string varint'' \<noteq>
              errorString ''could not read length given by length header''"
    "errorString ''could not read pong json'' \<noteq>
              errorString ''could not read length given by length header''"
    by simp_all
  from False have rf: "ReadFull r (unat nl) = (Inr (take (unat nl) r), drop (unat nl) r)"
    by (simp add: ReadFull_def)
  have "readPong E rd \<noteq> Err (errorString ''could not read length given by length header'')"
    unfolding readPong_def using assms(2) ne
    by (simp only: assms(1) rf prod.case sum.case)
       (simp split: prod.splits option.splits sum.splits)
  with False show ?thesis by simp
qed

lemma read_2_30: "ReadUvarint [0x80, 0x80, 0x80, 0x80, 0x04, 0x00] = (Inr 1073741824, [0x00])"
  by code_simp

theorem readPong_length_header_unbounded_witness:
  "ReadUvarint [0x80, 0x80, 0x80, 0x80, 0x04, 0x00] = (Inr 1073741824, [0x00]) \<and>
   unat (1073741824 :: uint64) \<le> maxAlloc (testEnv []) \<and>
   length [0x00 :: byte] < unat (1073741824 :: uint64) \<and>
   readPong (testEnv []) [0x80, 0x80, 0x80, 0x80, 0x04, 0x00] =
     Err (errorString ''could not read length given by length header'')"
proof -
  have b: "unat (1073741824 :: uint64) \<le> maxAlloc (testEnv [])"
    by (simp add: maxAlloc_testEnv)
  show ?thesis
    using readPong_length_header_unbounded[OF read_2_30 b] read_2_30 b
    by simp
qed

text \<open>
  C6, as claimed, asks for a failure on an implausibly large length. A header of four
  bytes declares \<open>2^21 = 2097152\<close> bytes, more than the longest packet of the
  protocol (a length of three varint bytes, \<open>2^21 - 1\<close>). When these bytes follow,
  here a packet id, a string length and the document \<open>{}\<close> padded with spaces,
  \<open>readPong\<close> allocates, reads and decodes them, and returns the response.
\<close>

lemma wf_2_21: "wellformed_varint [0x80, 0x80, 0x80, 0x01] 2097152"
  by code_simp

lemma unmarshal_padded:
  "Unmarshal (testEnv bs) ([0x7B, 0x7D] @ replicate n 0x20) = Inr emptyResponse"
  by (simp add: testEnv_def Unmarshal_empty_object_def list_all_iff)

theorem length_header_not_checked_counterexample:
  "fst (ReadUvarint ([0x80, 0x80, 0x80, 0x01] @ ([0x00] @ [0x02] @ [0x7B, 0x7D] @ replicate 2097148 0x20) @ []))
     = Inr 2097152 \<and>
   readPong (testEnv [])
     ([0x80, 0x80, 0x80, 0x01] @ ([0x00] @ [0x02] @ [0x7B, 0x7D] @ replicate 2097148 0x20) @ [])
     = Ok emptyResponse \<and>
   \<not> is_Err (readPong (testEnv [])
     ([0x80, 0x80, 0x80, 0x01] @ ([0x00] @ [0x02] @ [0x7B, 0x7D] @ replicate 2097148 0x20) @ []))"
proof -
  let ?js = "[0x7B, 0x7D] @ replicate 2097148 (0x20 :: byte)"
  have a: "unat (2097152 :: uint64) = length ([0x00] @ [0x02] @ ?js)" by simp
  have b: "unat (2097152 :: uint64) \<le> maxAlloc (testEnv [])" by (simp add: maxAlloc_testEnv)
  have r: "readPong (testEnv []) ([0x80, 0x80, 0x80, 0x01] @ ([0x00] @ [0x02] @ ?js) @ []) =
             (case Unmarshal (testEnv []) ?js of
                Inl err \<Rightarrow> Err (errorString ''could not read pong json'')
              | Inr res \<Rightarrow> Ok res)"
    by (rule readPong_wellformed[OF wf_0 wf_2 wf_2_21 a b])
  have ok: "readPong (testEnv []) ([0x80, 0x80, 0x80, 0x01] @ ([0x00] @ [0x02] @ ?js) @ []) =
             Ok emptyResponse"
    unfolding r by (simp only: unmarshal_padded sum.case)
  have h: "ReadUvarint ([0x80, 0x80, 0x80, 0x01] @ ([0x00] @ [0x02] @ ?js) @ []) =
             (Inr 2097152, ([0x00] @ [0x02] @ ?js) @ [])"
    by (rule ReadUvarint_wellformed[OF wf_2_21])
  show ?thesis
    by (simp only: ok h fst_conv is_Err.simps) simp
qed

subsection \<open>Varints that do not end\<close>

lemma Uvarint_loop_unterminated:
  "i \<le> MaxVarintLen64 \<Longrightarrow> list_all continued (take (MaxVarintLen64 - i) buf) \<Longrightarrow>
   fst (Uvarint_loop i acc s buf) = 0 \<and> snd (Uvarint_loop i acc s buf) \<le> 0"
proof (induction buf arbitrary: i acc s)
  case Nil
  then show ?case by simp
next
  case (Cons b bs)
  show ?case
  proof (cases "i = MaxVarintLen64")
    case True
    then show ?thesis by simp
  next
    case False
    with Cons.prems(1) have lt: "i < MaxVarintLen64" by simp
    then have "MaxVarintLen64 - i = Suc (MaxVarintLen64 - (i + 1))" by simp
    then have t: "take (MaxVarintLen64 - i) (b # bs) = b # take (MaxVarintLen64 - (i + 1)) bs"
      by (simp only: take_Suc_Cons)
    from Cons.prems(2) have cb: "continued b"
      and rest: "list_all continued (take (MaxVarintLen64 - (i + 1)) bs)"
      unfolding t by simp_all
    from cb have b: "\<not> b < 0x80" by (simp add: continued_def not_less)
    from lt have "i + 1 \<le> MaxVarintLen64" by simp
    from Cons.IH[OF this rest] False b show ?thesis by simp
  qed
qed

lemma Uvarint_unterminated:
  "list_all continued (take MaxVarintLen64 buf) \<Longrightarrow> fst (Uvarint buf) = 0 \<and> snd (Uvarint buf) \<le> 0"
  unfolding Uvarint_def using Uvarint_loop_unterminated[of 0 buf 0 0] by simp

lemma ReadUvarint_loop_unterminated:
  "i \<le> MaxVarintLen64 \<Longrightarrow> list_all continued (take (MaxVarintLen64 - i) buf) \<Longrightarrow>
   isl (fst (ReadUvarint_loop i acc s buf))"
proof (induction buf arbitrary: i acc s)
  case Nil
  then show ?case by simp
next
  case (Cons b bs)
  show ?case
  proof (cases "i = MaxVarintLen64")
    case True
    then show ?thesis by simp
  next
    case False
    with Cons.prems(1) have lt: "i < MaxVarintLen64" by simp
    then have "MaxVarintLen64 - i = Suc (MaxVarintLen64 - (i + 1))" by simp
    then have t: "take (MaxVarintLen64 - i) (b # bs) = b # take (MaxVarintLen64 - (i + 1)) bs"
      by (simp only: take_Suc_Cons)
    from Cons.prems(2) have cb: "continued b"
      and rest: "list_all continued (take (MaxVarintLen64 - (i + 1)) bs)"
      unfolding t by simp_all
    from cb have b: "\<not> b < 0x80" by (simp add: continued_def not_less)
    from lt have "i + 1 \<le> MaxVarintLen64" by simp
    from Cons.IH[OF this rest] lt b show ?thesis by simp
  qed
qed

lemma ReadUvarint_unterminated:
  "list_all continued (take MaxVarintLen64 buf) \<Longrightarrow> isl (fst (ReadUvarint buf))"
  unfolding ReadUvarint_def using ReadUvarint_loop_unterminated[of 0 buf 0 0] by simp

lemma unterminated_cases:
  "list_all continued buf \<or> (MaxVarintLen64 < length buf \<and> list_all continued (take MaxVarintLen64 buf))
   \<Longrightarrow> list_all continued (take MaxVarintLen64 buf)"
  by (auto simp: list_all_iff dest: in_set_takeD)

lemma readPong_bad_length:
  "isl (fst (ReadUvarint rd)) \<Longrightarrow> readPong E rd = Err (errorString ''could not read length'')"
  by (cases "ReadUvarint rd") (auto simp: readPong_def isl_def)

lemma readPong_bad_packet_id:
  assumes "wellformed_varint hdr N" and "unat N = length buf" and "unat N \<le> maxAlloc E"
    and "snd (Uvarint buf) \<le> 0"
  shows "readPong E (hdr @ buf @ extra) = Err (errorString ''could not read packet id'')"
proof -
  have rf: "ReadFull (buf @ extra) (unat N) = (Inr buf, extra)"
    unfolding assms(2) by (rule ReadFull_exact)
  obtain x n where uv: "Uvarint buf = (x, n)" and n: "n \<le> 0"
    using assms(4) by (cases "Uvarint buf") simp
  show ?thesis
    unfolding readPong_def using assms(3) n
    by (simp add: ReadUvarint_wellformed[OF assms(1)] rf uv)
qed

lemma readPong_bad_string_varint:
  assumes "wellformed_varint hdr N" and "unat N = length (v1 @ buf)" and "unat N \<le> maxAlloc E"
    and "wellformed_varint v1 pid" and "snd (Uvarint buf) \<le> 0"
  shows "readPong E (hdr @ (v1 @ buf) @ extra) = Err (errorString ''could not read string varint'')"
proof -
  have rf: "ReadFull (v1 @ buf @ extra) (unat N) = (Inr (v1 @ buf), extra)"
    unfolding assms(2) using ReadFull_exact[of "v1 @ buf" extra] by simp
  have n1: "0 < int (length v1)"
    using assms(4) by (simp add: wellformed_varint_def)
  obtain x n where uv: "Uvarint buf = (x, n)" and n: "n \<le> 0"
    using assms(5) by (cases "Uvarint buf") simp
  show ?thesis
    unfolding readPong_def using assms(3) n n1
    by (simp add: ReadUvarint_wellformed[OF assms(1)] rf Uvarint_wellformed[OF assms(4)]
        slice_from_append uv)
qed

text \<open>
  C7. Take a buffer whose bytes all have the continuation bit set, so that the varint
  does not end before the buffer does, or a buffer of more than ten bytes whose first
  ten all have it, so that the varint would be longer than ten bytes. Then
  \<open>binary.Uvarint\<close> returns the value 0 and a byte count that is not positive, its
  sign of failure, and \<open>binary.ReadUvarint\<close> returns an error; both are total
  functions, so neither runs forever. In \<open>readPong\<close> this is a failure to decode the
  header: \<open>could not read length\<close> when the stream starts with such bytes,
  \<open>could not read packet id\<close> when the framed payload does, and
  \<open>could not read string varint\<close> when they follow a well-formed packet id.
\<close>

theorem unterminated_varint_fails:
  assumes "list_all continued buf \<or>
           (MaxVarintLen64 < length buf \<and> list_all continued (take MaxVarintLen64 buf))"
  shows "fst (Uvarint buf) = 0 \<and> snd (Uvarint buf) \<le> 0 \<and>
         isl (fst (ReadUvarint buf)) \<and>
         readPong E buf = Err (errorString ''could not read length'') \<and>
         (wellformed_varint hdr N \<and> unat N = length buf \<and> unat N \<le> maxAlloc E \<longrightarrow>
            readPong E (hdr @ buf @ extra) = Err (errorString ''could not read packet id'')) \<and>
         (wellformed_varint hdr' N' \<and> unat N' = length (v1 @ buf) \<and> unat N' \<le> maxAlloc E \<and>
          wellformed_varint v1 pid \<longrightarrow>
            readPong E (hdr' @ (v1 @ buf) @ extra) = Err (errorString ''could not read string varint''))"
proof -
  from assms have u: "list_all continued (take MaxVarintLen64 buf)"
    by (rule unterminated_cases)
  note uv = Uvarint_unterminated[OF u]
  note ru = ReadUvarint_unterminated[OF u]
  from uv show ?thesis
    using ru readPong_bad_length[OF ru, of E]
      readPong_bad_packet_id[of hdr N buf E extra]
      readPong_bad_string_varint[of hdr' N' v1 buf E pid extra]
    by blast
qed

theorem unterminated_varint_fails_witness:
  "list_all continued [0x80, 0xFF] \<and>
   snd (Uvarint [0x80, 0xFF]) \<le> 0 \<and>
   readPong (testEnv []) [0x80, 0xFF] = Err (errorString ''could not read length'') \<and>
   wellformed_varint [0x02] 2 \<and>
   readPong (testEnv []) ([0x02] @ [0x80, 0xFF] @ []) =
     Err (errorString ''could not read packet id'') \<and>
   wellformed_varint [0x03] 3 \<and> wellformed_varint [0x00] 0 \<and>
   readPong (testEnv []) ([0x03] @ ([0x00] @ [0x80, 0xFF]) @ []) =
     Err (errorString ''could not read string varint'') \<and>
   MaxVarintLen64 < length [0x80, 0x80, 0x80, 0x80, 0x80, 0x80, 0x80, 0x80, 0x80, 0x80, 0x01 :: byte] \<and>
   list_all continued
     (take MaxVarintLen64 [0x80, 0x80, 0x80, 0x80, 0x80, 0x80, 0x80, 0x80, 0x80, 0x80, 0x01]) \<and>
   snd (Uvarint [0x80, 0x80, 0x80, 0x80, 0x80, 0x80, 0x80, 0x80, 0x80, 0x80, 0x01]) \<le> 0"
proof -
  let ?long = "[0x80, 0x80, 0x80, 0x80, 0x80, 0x80, 0x80, 0x80, 0x80, 0x80, 0x01] :: byte list"
  have c: "list_all continued [0x80, 0xFF]"
    by (simp add: continued_def)
  have l: "MaxVarintLen64 < length ?long" "list_all continued (take MaxVarintLen64 ?long)"
    by (simp_all add: MaxVarintLen64_def continued_def)
  have h1: "list_all continued [0x80, 0xFF] \<or>
      (MaxVarintLen64 < length [0x80, 0xFF :: byte] \<and>
       list_all continued (take MaxVarintLen64 [0x80, 0xFF]))"
    using c by simp
  have h2: "list_all continued ?long \<or>
      (MaxVarintLen64 < length ?long \<and> list_all continued (take MaxVarintLen64 ?long))"
    using l by simp
  have n: "unat (2 :: uint64) = length [0x80, 0xFF :: byte]"
    "unat (2 :: uint64) \<le> maxAlloc (testEnv [])"
    "unat (3 :: uint64) = length ([0x00] @ [0x80, 0xFF :: byte])"
    "unat (3 :: uint64) \<le> maxAlloc (testEnv [])"
    by (simp_all add: maxAlloc_testEnv)
  show ?thesis
    using unterminated_varint_fails[OF h1, of "testEnv []" "[0x02]" 2 "[]" "[0x03]" 3 "[0x00]" 0]
      unterminated_varint_fails[OF h2, of "testEnv []" "[0x02]" 2 "[]" "[0x03]" 3 "[0x00]" 0]
      c l n wf_2 wf_3 wf_0
    by simp
qed

end
